theory Spec2Isabelle
  imports Complex_Main "HOL-Library.Multiset"
begin

section \<open>Values held by a numpy float array\<close>

text \<open>
  The notebook works on numpy arrays of floating-point scores.  A score is modelled as an
  exact real number or one of the three special values of IEEE arithmetic; rounding,
  overflow and underflow of finite values and the sign of zero are abstracted away
  (arithmetic on finite values is exact).  The special values follow IEEE 754 as numpy
  exposes it: \<open>-inf - (-inf)\<close> is \<open>nan\<close>, \<open>exp(-inf)\<close> is \<open>0\<close>, every comparison
  with \<open>nan\<close> is false.
\<close>

datatype fval = NInf | Fin real | PInf | NaN

text \<open>
  Python exceptions: \<open>ValueError\<close> and \<open>IndexError\<close> are raised by the list and numpy
  operations the notebook uses, \<open>RuntimeError\<close> stands for any failure of the inference
  runtime.
\<close>

datatype error = ValueError | IndexError | RuntimeError

text \<open>
  The order \<open>np.sort\<close> sorts by: the numeric order, with \<open>nan\<close> after every number.
\<close>

fun fval_le :: "fval \<Rightarrow> fval \<Rightarrow> bool" where
  "fval_le NInf _ = True"
| "fval_le (Fin a) NInf = False"
| "fval_le (Fin a) (Fin b) = (a \<le> b)"
| "fval_le (Fin a) _ = True"
| "fval_le PInf PInf = True"
| "fval_le PInf NaN = True"
| "fval_le PInf _ = False"
| "fval_le NaN NaN = True"
| "fval_le NaN _ = False"

instantiation fval :: linorder
begin

definition less_eq_fval :: "fval \<Rightarrow> fval \<Rightarrow> bool" where
  "less_eq_fval a b = fval_le a b"

definition less_fval :: "fval \<Rightarrow> fval \<Rightarrow> bool" where
  "less_fval a b = (fval_le a b \<and> \<not> fval_le b a)"

instance
proof
  fix x y z :: fval
  show "(x < y) = (x \<le> y \<and> \<not> y \<le> x)"
    by (simp add: less_eq_fval_def less_fval_def)
  show "x \<le> x"
    by (cases x) (simp_all add: less_eq_fval_def)
  show "x \<le> y \<Longrightarrow> y \<le> z \<Longrightarrow> x \<le> z"
    by (cases x; cases y; cases z) (simp_all add: less_eq_fval_def)
  show "x \<le> y \<Longrightarrow> y \<le> x \<Longrightarrow> x = y"
    by (cases x; cases y) (simp_all add: less_eq_fval_def)
  show "x \<le> y \<or> y \<le> x"
    by (cases x; cases y) (auto simp add: less_eq_fval_def)
qed

end

text \<open>The comparison \<open><\<close> of two array entries: false as soon as one side is \<open>nan\<close>.\<close>

definition flt :: "fval \<Rightarrow> fval \<Rightarrow> bool" where
  "flt a b = (a \<noteq> NaN \<and> b \<noteq> NaN \<and> a < b)"

fun fneg :: "fval \<Rightarrow> fval" where
  "fneg NInf = PInf"
| "fneg (Fin a) = Fin (- a)"
| "fneg PInf = NInf"
| "fneg NaN = NaN"

fun fadd :: "fval \<Rightarrow> fval \<Rightarrow> fval" where
  "fadd NaN _ = NaN"
| "fadd _ NaN = NaN"
| "fadd (Fin a) (Fin b) = Fin (a + b)"
| "fadd PInf NInf = NaN"
| "fadd NInf PInf = NaN"
| "fadd PInf _ = PInf"
| "fadd _ PInf = PInf"
| "fadd NInf _ = NInf"
| "fadd _ NInf = NInf"

definition fsub :: "fval \<Rightarrow> fval \<Rightarrow> fval" where
  "fsub a b = fadd a (fneg b)"

fun fexp :: "fval \<Rightarrow> fval" where
  "fexp NInf = Fin 0"
| "fexp (Fin a) = Fin (exp a)"
| "fexp PInf = PInf"
| "fexp NaN = NaN"

fun fdiv :: "fval \<Rightarrow> fval \<Rightarrow> fval" where
  "fdiv NaN _ = NaN"
| "fdiv _ NaN = NaN"
| "fdiv (Fin a) (Fin b) =
     (if b \<noteq> 0 then Fin (a / b)
      else if a = 0 then NaN else if 0 < a then PInf else NInf)"
| "fdiv (Fin a) _ = Fin 0"
| "fdiv PInf (Fin b) = (if 0 \<le> b then PInf else NInf)"
| "fdiv NInf (Fin b) = (if 0 \<le> b then NInf else PInf)"
| "fdiv _ _ = NaN"

section \<open>The numpy operations the notebook calls\<close>

text \<open>\<open>np.sum\<close> of a row; the sum of no entries is \<open>0\<close>.\<close>

primrec fsum :: "fval list \<Rightarrow> fval" where
  "fsum [] = Fin 0"
| "fsum (x # xs) = fadd x (fsum xs)"

text \<open>
  \<open>np.max\<close> and \<open>np.min\<close> of a row: \<open>ValueError\<close> on an empty row, \<open>nan\<close> as soon as
  one entry is \<open>nan\<close>.
\<close>

definition np_max :: "fval list \<Rightarrow> error + fval" where
  "np_max xs =
     (if xs = [] then Inl ValueError
      else if NaN \<in> set xs then Inr NaN else Inr (Max (set xs)))"

definition np_min :: "fval list \<Rightarrow> error + fval" where
  "np_min xs =
     (if xs = [] then Inl ValueError
      else if NaN \<in> set xs then Inr NaN else Inr (Min (set xs)))"

text \<open>
  Reading and writing one position of a sequence with a Python index: a negative index
  counts from the end, an index outside the sequence raises \<open>IndexError\<close>.
\<close>

definition py_index :: "nat \<Rightarrow> int \<Rightarrow> error + nat" where
  "py_index n i =
     (let j = (if i < 0 then i + int n else i)
      in if 0 \<le> j \<and> j < int n then Inr (nat j) else Inl IndexError)"

definition np_getitem :: "'a list \<Rightarrow> int \<Rightarrow> error + 'a" where
  "np_getitem xs i =
     (case py_index (length xs) i of Inl e \<Rightarrow> Inl e | Inr j \<Rightarrow> Inr (xs ! j))"

definition np_setitem :: "'a list \<Rightarrow> int \<Rightarrow> 'a \<Rightarrow> error + 'a list" where
  "np_setitem xs i v =
     (case py_index (length xs) i of Inl e \<Rightarrow> Inl e | Inr j \<Rightarrow> Inr (xs[j := v]))"

text \<open>
  \<open>np.ma.array(data, mask=mask, fill_value=fill).filled()\<close>: the data with every masked
  entry replaced by the fill value.
\<close>

definition ma_filled :: "'a list \<Rightarrow> bool list \<Rightarrow> 'a \<Rightarrow> 'a list" where
  "ma_filled data msk fill = map (\<lambda>(d, m). if m then fill else d) (zip data msk)"

section \<open>The notebook's functions\<close>

text \<open>
  The notebook handles one sequence at a time (a batch of one row), so an array of shape
  \<open>[1, n]\<close> is modelled as the list of its single row.

  \<^verbatim>\<open>
  def process_logits(input_ids, scores, eos_token_id, min_length=0):
      cur_length = input_ids.shape[-1]
      if cur_length < min_length:
          scores[:, eos_token_id] = -float("inf")
      return scores
  \<close>
\<close>

definition process_logits :: "int list \<Rightarrow> fval list \<Rightarrow> int \<Rightarrow> int \<Rightarrow> error + fval list" where
  "process_logits input_ids scores eos_token_id min_length =
     (let cur_length = int (length input_ids)
      in if cur_length < min_length then np_setitem scores eos_token_id NInf
         else Inr scores)"

text \<open>
  \<^verbatim>\<open>
  def get_top_k_logits(scores, top_k):
      filter_value = -float("inf")
      top_k = min(max(top_k, 1), scores.shape[-1])
      top_k_scores = -np.sort(-scores)[:, :top_k]
      indices_to_remove = scores < np.min(top_k_scores)
      filtred_scores = np.ma.array(scores, mask=indices_to_remove,
                                   fill_value=filter_value).filled()
      return filtred_scores
  \<close>
\<close>

definition get_top_k_logits :: "fval list \<Rightarrow> int \<Rightarrow> error + fval list" where
  "get_top_k_logits scores top_k =
     (let filter_value = NInf;
          top_k = min (max top_k 1) (int (length scores));
          top_k_scores = take (nat top_k) (map fneg (sort (map fneg scores)))
      in case np_min top_k_scores of
           Inl e \<Rightarrow> Inl e
         | Inr threshold \<Rightarrow>
             (let indices_to_remove = map (\<lambda>s. flt s threshold) scores
              in Inr (ma_filled scores indices_to_remove filter_value)))"

text \<open>
  \<^verbatim>\<open>
  def softmax(x):
      e_x = np.exp(x - np.max(x, axis=-1, keepdims=True))
      summation = e_x.sum(axis=-1, keepdims=True)
      return e_x / summation
  \<close>
\<close>

definition softmax :: "fval list \<Rightarrow> error + fval list" where
  "softmax x =
     (case np_max x of
        Inl e \<Rightarrow> Inl e
      | Inr m \<Rightarrow>
          (let e_x = map (\<lambda>v. fexp (fsub v m)) x;
               summation = fsum e_x
           in Inr (map (\<lambda>e. fdiv e summation) e_x)))"

text \<open>
  \<open>np.random.choice(n, 1, p=p, replace=True)\<close> is numpy's routine, not the notebook's; it
  is modelled after numpy's reference implementation.  It raises \<open>ValueError\<close> when
  \<open>n\<close> is \<open>0\<close>, when the sum of \<open>p\<close> is \<open>nan\<close>, when an entry of \<open>p\<close> is negative and when
  the sum of \<open>p\<close> is further than a tolerance from \<open>1\<close> (an infinite sum always is).
  Otherwise it takes one uniform draw \<open>u\<close> from \<open>[0, 1)\<close> and returns the position where
  \<open>u\<close> falls in the normalised cumulative sums of \<open>p\<close> (\<open>searchsorted\<close> with
  \<open>side='right'\<close>: the number of cumulative sums that are at most \<open>u\<close>).  Here the draw
  \<open>u\<close> is an argument of \<open>np_random_choice\<close>; the tolerance is the square root of the
  machine epsilon of double precision.
\<close>

definition choice_atol :: real where
  "choice_atol = 1 / 2 ^ 26"

primrec cumsum_from :: "real \<Rightarrow> real list \<Rightarrow> real list" where
  "cumsum_from acc [] = []"
| "cumsum_from acc (x # xs) = (acc + x) # cumsum_from (acc + x) xs"

definition cumsum :: "real list \<Rightarrow> real list" where
  "cumsum xs = cumsum_from 0 xs"

definition searchsorted_right :: "real list \<Rightarrow> real \<Rightarrow> nat" where
  "searchsorted_right cdf u = length (filter (\<lambda>c. c \<le> u) cdf)"

text \<open>
  The real number of an entry that is known to be finite: \<open>fin_value\<close> is only applied
  to probabilities that passed the checks of \<open>np_random_choice\<close>, which reject every
  vector with an entry that is not finite.
\<close>

fun fin_value :: "fval \<Rightarrow> real" where
  "fin_value (Fin a) = a"
| "fin_value _ = 0"

definition np_random_choice :: "fval list \<Rightarrow> real \<Rightarrow> error + int" where
  "np_random_choice p u =
     (if p = [] then Inl ValueError
      else case fsum p of
        NaN \<Rightarrow> Inl ValueError
      | NInf \<Rightarrow> Inl ValueError
      | PInf \<Rightarrow> Inl ValueError
      | Fin p_sum \<Rightarrow>
          if list_ex (\<lambda>x. flt x (Fin 0)) p then Inl ValueError
          else if \<bar>p_sum - 1\<bar> > choice_atol then Inl ValueError
          else (let cdf = cumsum (map fin_value p);
                    cdf = map (\<lambda>c. c / last cdf) cdf
                in Inr (int (searchsorted_right cdf u))))"

section \<open>The generation loop\<close>

text \<open>
  \<^verbatim>\<open>
  def generate_sequence(input_ids, max_sequence_length=128,
                        eos_token_id=eos_token_id):
      while True:
          cur_input_len = len(input_ids[0])
          pad_len = max_sequence_length - cur_input_len
          model_input = np.concatenate((input_ids,
                                        [[eos_token_id] * pad_len]), axis=-1)
          # passing the padded sequnce into the model
          outputs = compiled_model(inputs=[model_input])[output_keys]
          next_token_logits = outputs[:, cur_input_len - 1, :]
          # pre-process distribution
          next_token_scores = process_logits(input_ids,
                                             next_token_logits, eos_token_id)
          top_k = 20
          next_token_scores = get_top_k_logits(next_token_scores, top_k)
          # get next token id
          probs = softmax(next_token_scores)
          next_tokens = np.random.choice(probs.shape[-1], 1,
                                         p=probs[0], replace=True)
          # break the loop if max length or end of text token is reached
          if cur_input_len == max_sequence_length or next_tokens == eos_token_id:
              break
          else:
              input_ids = np.concatenate((input_ids, [next_tokens]), axis=-1)
      return input_ids
  \<close>
  The compiled model and the random generator are globals of the notebook; here they are
  arguments.  \<open>compiled_model\<close> maps the padded token row to the logits of every position
  (one score vector per position) or fails; \<open>rng n\<close> is the uniform draw that the
  \<open>n\<close>-th call of \<open>np.random.choice\<close> consumes (counting from \<open>0\<close>).

  \<open>next_token\<close> is the part of the loop body from the read of \<open>outputs\<close> to the sampled
  token: the logits at position \<open>cur_input_len - 1\<close>, \<open>process_logits\<close> with its default
  \<open>min_length = 0\<close>, \<open>get_top_k_logits\<close> with \<open>top_k = 20\<close>, \<open>softmax\<close>, and the draw.
\<close>

definition next_token :: "fval list list \<Rightarrow> int list \<Rightarrow> int \<Rightarrow> real \<Rightarrow> error + int" where
  "next_token outputs input_ids eos_token_id u =
     (let cur_input_len = int (length input_ids)
      in case np_getitem outputs (cur_input_len - 1) of
           Inl e \<Rightarrow> Inl e
         | Inr next_token_logits \<Rightarrow>
        (case process_logits input_ids next_token_logits eos_token_id 0 of
           Inl e \<Rightarrow> Inl e
         | Inr next_token_scores \<Rightarrow>
        (case get_top_k_logits next_token_scores 20 of
           Inl e \<Rightarrow> Inl e
         | Inr next_token_scores \<Rightarrow>
        (case softmax next_token_scores of
           Inl e \<Rightarrow> Inl e
         | Inr probs \<Rightarrow> np_random_choice probs u))))"

text \<open>
  The padded row handed to the model: \<open>[eos_token_id] * pad_len\<close> is the empty list when
  \<open>pad_len\<close> is zero or negative.
\<close>

definition model_input_of :: "int list \<Rightarrow> int \<Rightarrow> int \<Rightarrow> int list" where
  "model_input_of input_ids max_sequence_length eos_token_id =
     (let cur_input_len = int (length input_ids);
          pad_len = max_sequence_length - cur_input_len
      in input_ids @ replicate (nat pad_len) eos_token_id)"

text \<open>
  The loop.  Its state is \<open>input_ids\<close> and, to observe the calls of the model, the list
  \<open>calls\<close> of the rows the model has been invoked on so far (one call and one draw per
  iteration, so the iteration that starts with \<open>calls\<close> consumes draw number
  \<open>length calls\<close>).  The result is \<open>None\<close> when the loop runs forever; otherwise it is the
  list of all model inputs in order, with the raised exception or the returned
  \<open>input_ids\<close>.
\<close>

partial_function (option) generate_loop ::
  "(int list \<Rightarrow> error + fval list list) \<Rightarrow> (nat \<Rightarrow> real) \<Rightarrow> int \<Rightarrow> int \<Rightarrow>
   int list \<Rightarrow> int list list \<Rightarrow> (int list list \<times> (error + int list)) option" where
  "generate_loop compiled_model rng max_sequence_length eos_token_id input_ids calls =
     (let cur_input_len = int (length input_ids);
          model_input = model_input_of input_ids max_sequence_length eos_token_id;
          calls' = calls @ [model_input]
      in case compiled_model model_input of
           Inl e \<Rightarrow> Some (calls', Inl e)
         | Inr outputs \<Rightarrow>
        (case next_token outputs input_ids eos_token_id (rng (length calls)) of
           Inl e \<Rightarrow> Some (calls', Inl e)
         | Inr next_tokens \<Rightarrow>
             if cur_input_len = max_sequence_length \<or> next_tokens = eos_token_id
             then Some (calls', Inr input_ids)
             else generate_loop compiled_model rng max_sequence_length eos_token_id
                    (input_ids @ [next_tokens]) calls'))"

definition generate_sequence ::
  "(int list \<Rightarrow> error + fval list list) \<Rightarrow> (nat \<Rightarrow> real) \<Rightarrow> int list \<Rightarrow> int \<Rightarrow> int \<Rightarrow>
   (int list list \<times> (error + int list)) option" where
  "generate_sequence compiled_model rng input_ids max_sequence_length eos_token_id =
     generate_loop compiled_model rng max_sequence_length eos_token_id input_ids []"

section \<open>The filters on shared arrays\<close>

text \<open>
  numpy arrays are mutable objects, and \<open>process_logits\<close> assigns into its argument.  To
  state what a caller's array holds after a call, the two filters are also given on a
  store of arrays: a heap is the list of the arrays allocated so far and an address is a
  position in it.  \<open>process_logits\<close> writes into the array it was given and returns that
  same array.  \<open>get_top_k_logits\<close> only reads its argument; \<open>filled()\<close> of numpy's masked
  array returns the data it was built on when no entry is masked and a filled copy
  otherwise.
\<close>

type_synonym heap = "fval list list"

definition process_logits_heap ::
  "heap \<Rightarrow> int list \<Rightarrow> nat \<Rightarrow> int \<Rightarrow> int \<Rightarrow> error + heap \<times> nat" where
  "process_logits_heap h input_ids scores eos_token_id min_length =
     (let cur_length = int (length input_ids)
      in if cur_length < min_length
         then (case np_setitem (h ! scores) eos_token_id NInf of
                 Inl e \<Rightarrow> Inl e
               | Inr row \<Rightarrow> Inr (h[scores := row], scores))
         else Inr (h, scores))"

definition get_top_k_logits_heap :: "heap \<Rightarrow> nat \<Rightarrow> int \<Rightarrow> error + heap \<times> nat" where
  "get_top_k_logits_heap h scores top_k =
     (let filter_value = NInf;
          top_k = min (max top_k 1) (int (length (h ! scores)));
          top_k_scores = take (nat top_k) (map fneg (sort (map fneg (h ! scores))))
      in case np_min top_k_scores of
           Inl e \<Rightarrow> Inl e
         | Inr threshold \<Rightarrow>
             (let indices_to_remove = map (\<lambda>s. flt s threshold) (h ! scores)
              in if list_ex (\<lambda>m. m) indices_to_remove
                 then Inr (h @ [ma_filled (h ! scores) indices_to_remove filter_value],
                           length h)
                 else Inr (h, scores)))"

section \<open>Inputs of the scenarios\<close>

text \<open>
  The scenarios of the specification run the generator on a stub model whose logits make
  the sampler pick one fixed token.  \<open>one_hot V t c\<close> is the score vector over \<open>V\<close>
  tokens that is \<open>c\<close> at token \<open>t\<close> and negative infinity everywhere else, and
  \<open>one_hot_model V t\<close> is the model that returns this vector (with \<open>c = 0\<close>) at every
  position of its input.
\<close>

definition one_hot :: "nat \<Rightarrow> nat \<Rightarrow> real \<Rightarrow> fval list" where
  "one_hot V t c = (replicate V NInf)[t := Fin c]"

definition one_hot_model :: "nat \<Rightarrow> nat \<Rightarrow> int list \<Rightarrow> error + fval list list" where
  "one_hot_model V t model_input = Inr (replicate (length model_input) (one_hot V t 0))"

section \<open>Properties\<close>

subsection \<open>The order and the arithmetic of scores\<close>

lemma fneg_fneg [simp]: "fneg (fneg x) = x"
  by (cases x) simp_all

lemma fneg_eq_NaN [simp]: "(fneg x = NaN) = (x = NaN)"
  by (cases x) simp_all

lemma NaN_eq_fneg [simp]: "(NaN = fneg x) = (x = NaN)"
  by (cases x) simp_all

lemma fneg_le_iff: "a \<noteq> NaN \<Longrightarrow> b \<noteq> NaN \<Longrightarrow> (fneg a \<le> fneg b) = (b \<le> a)"
  by (cases a; cases b) (simp_all add: less_eq_fval_def)

lemma flt_iff: "a \<noteq> NaN \<Longrightarrow> b \<noteq> NaN \<Longrightarrow> flt a b = (a < b)"
  by (simp add: flt_def)

lemma ma_filled_map:
  "ma_filled xs (map p xs) v = map (\<lambda>s. if p s then v else s) xs"
  by (induction xs) (simp_all add: ma_filled_def)

lemma mset_sort_desc: "mset (map fneg (sort (map fneg xs))) = mset xs"
  by (simp add: multiset.map_comp comp_def)

lemma sorted_desc:
  assumes "NaN \<notin> set xs"
  shows "sorted_wrt (\<lambda>a b. b \<le> a) (map fneg (sort (map fneg xs)))"
proof -
  let ?ys = "sort (map fneg xs)"
  have nn: "y \<noteq> NaN" if "y \<in> set ?ys" for y using assms that by auto
  have "sorted_wrt (\<le>) ?ys" by simp
  moreover have "fneg b \<le> fneg a"
    if "a \<in> set ?ys" "b \<in> set ?ys" "a \<le> b" for a b
    using that nn[of a] nn[of b] by (simp add: fneg_le_iff)
  ultimately have "sorted_wrt (\<lambda>a b. fneg b \<le> fneg a) ?ys"
    by (rule sorted_wrt_mono_rel[rotated])
  then show ?thesis by (simp add: sorted_wrt_map)
qed

lemma np_min_take_desc:
  assumes d: "sorted_wrt (\<lambda>a b. b \<le> a) d" and nn: "NaN \<notin> set d"
    and k: "1 \<le> k" "k \<le> length d"
  shows "np_min (take k d) = Inr (d ! (k - 1))"
proof -
  have ne: "take k d \<noteq> []" using k by auto
  have nn': "NaN \<notin> set (take k d)" using nn by (auto dest: in_set_takeD)
  have mem: "d ! (k - 1) \<in> set (take k d)"
    using k by (auto simp: in_set_conv_nth intro!: exI[of _ "k - 1"])
  have low: "d ! (k - 1) \<le> y" if "y \<in> set (take k d)" for y
  proof -
    from that obtain j where j: "j < k" "y = d ! j"
      using k by (auto simp: in_set_conv_nth)
    show ?thesis
    proof (cases "j = k - 1")
      case True
      then show ?thesis using j by simp
    next
      case False
      then have "j < k - 1" using j by simp
      then show ?thesis using d k j by (simp add: sorted_wrt_iff_nth_less)
    qed
  qed
  have "Min (set (take k d)) = d ! (k - 1)"
    using mem low by (intro Min_eqI) auto
  then show ?thesis using ne nn' by (simp add: np_min_def)
qed

lemma count_above_desc:
  fixes d :: "fval list"
  assumes d: "sorted_wrt (\<lambda>a b. b \<le> a) d" and k: "1 \<le> k" "k \<le> length d"
  shows "length (filter (\<lambda>s. d ! (k - 1) < s) d) < k"
proof -
  have "{i. i < length d \<and> d ! (k - 1) < d ! i} \<subseteq> {..<k - 1}"
  proof
    fix i assume "i \<in> {i. i < length d \<and> d ! (k - 1) < d ! i}"
    then have i: "i < length d" "d ! (k - 1) < d ! i" by auto
    have "\<not> k - 1 \<le> i"
    proof
      assume "k - 1 \<le> i"
      then have "d ! i \<le> d ! (k - 1)"
        using d i(1) by (cases "i = k - 1") (auto simp: sorted_wrt_iff_nth_less)
      then show False using i(2) by simp
    qed
    then show "i \<in> {..<k - 1}" by simp
  qed
  then have "card {i. i < length d \<and> d ! (k - 1) < d ! i} \<le> card {..<k - 1}"
    by (intro card_mono) auto
  then show ?thesis using k by (simp add: length_filter_conv_card)
qed

lemma count_at_least_desc:
  fixes d :: "fval list"
  assumes d: "sorted_wrt (\<lambda>a b. b \<le> a) d" and k: "1 \<le> k" "k \<le> length d"
  shows "k \<le> length (filter (\<lambda>s. d ! (k - 1) \<le> s) d)"
proof -
  have "{..<k} \<subseteq> {i. i < length d \<and> d ! (k - 1) \<le> d ! i}"
  proof
    fix i assume "i \<in> {..<k}"
    then have i: "i < k" by simp
    then have "d ! (k - 1) \<le> d ! i"
      using d k by (cases "i = k - 1") (auto simp: sorted_wrt_iff_nth_less)
    then show "i \<in> {i. i < length d \<and> d ! (k - 1) \<le> d ! i}" using i k by simp
  qed
  then have "card {..<k} \<le> card {i. i < length d \<and> d ! (k - 1) \<le> d ! i}"
    by (intro card_mono) auto
  then show ?thesis by (simp add: length_filter_conv_card)
qed

lemma length_filter_mset_eq:
  "mset xs = mset ys \<Longrightarrow> length (filter P xs) = length (filter P ys)"
  by (metis mset_filter size_mset)

lemma Fin_less [simp]: "(Fin a < Fin b) = (a < b)" "(Fin a \<le> Fin b) = (a \<le> b)"
  by (auto simp: less_fval_def less_eq_fval_def)

lemma NInf_less [simp]: "NInf < Fin a" "NInf \<le> x" "\<not> Fin a \<le> NInf" "\<not> x < NInf"
  by (cases x; auto simp: less_fval_def less_eq_fval_def)+

lemma PInf_less [simp]: "Fin a < PInf" "NInf < PInf" "\<not> PInf \<le> Fin a" "\<not> PInf \<le> NInf"
  by (auto simp: less_fval_def less_eq_fval_def)

lemma NaN_top [simp]: "x \<le> NaN" "\<not> NaN < x"
  by (cases x; auto simp: less_fval_def less_eq_fval_def)+

subsection \<open>Minimum-length suppression\<close>

lemma py_index_in_range:
  "0 \<le> i \<Longrightarrow> i < int n \<Longrightarrow> py_index n i = Inr (nat i)"
  by (simp add: py_index_def)

text \<open>
  Claim C6.  For every \<open>min_length\<close> and every current length, \<open>process_logits\<close> sets the
  score at index \<open>eos_token_id\<close> (a valid index of the score vector) to negative infinity
  exactly when the current length is below \<open>min_length\<close>, and otherwise returns the scores
  unchanged; with the default \<open>min_length = 0\<close> the scores are always returned unchanged,
  whatever \<open>eos_token_id\<close> is.
\<close>

theorem process_logits_suppresses_eos:
  "(0 \<le> eos_token_id \<and> eos_token_id < int (length scores) \<longrightarrow>
      process_logits input_ids scores eos_token_id min_length =
        (if int (length input_ids) < min_length
         then Inr (scores[nat eos_token_id := NInf]) else Inr scores))
   \<and> process_logits input_ids scores e 0 = Inr scores"
  by (simp add: process_logits_def np_setitem_def py_index_in_range)

theorem process_logits_suppresses_eos_witness:
  "process_logits [5, 9, 2] [Fin 1, Fin 3, Fin 2] 1 4 = Inr [Fin 1, NInf, Fin 2]
   \<and> process_logits [5, 9, 2] [Fin 1, Fin 3, Fin 2] 1 3 = Inr [Fin 1, Fin 3, Fin 2]
   \<and> process_logits [5, 9, 2] [Fin 1, Fin 3, Fin 2] 7 0 = Inr [Fin 1, Fin 3, Fin 2]"
  using process_logits_suppresses_eos [of 1 "[Fin 1, Fin 3, Fin 2]" "[5, 9, 2]" 4 7]
    process_logits_suppresses_eos [of 1 "[Fin 1, Fin 3, Fin 2]" "[5, 9, 2]" 3 7]
  by simp

subsection \<open>Top-K truncation\<close>

lemma get_top_k_logits_via_threshold:
  assumes "np_min (take (nat (min (max top_k 1) (int (length scores))))
             (map fneg (sort (map fneg scores)))) = Inr thr"
  shows "get_top_k_logits scores top_k = Inr (map (\<lambda>s. if flt s thr then NInf else s) scores)"
  using assms by (simp add: get_top_k_logits_def ma_filled_map)

lemma top_k_threshold:
  assumes ne: "scores \<noteq> []" and nn: "NaN \<notin> set scores"
    and k_def: "k = nat (min (max top_k 1) (int (length scores)))"
  obtains thr where "thr \<in> set scores"
    and "np_min (take k (map fneg (sort (map fneg scores)))) = Inr thr"
    and "length (filter (\<lambda>s. thr < s) scores) < k"
    and "k \<le> length (filter (\<lambda>s. thr \<le> s) scores)"
proof -
  define d where "d = map fneg (sort (map fneg scores))"
  define thr where "thr = d ! (k - 1)"
  have len: "1 \<le> int (length scores)" using ne by (cases scores) simp_all
  have k: "1 \<le> k" "k \<le> length scores"
    unfolding k_def using len by linarith+
  have md: "mset d = mset scores" using mset_sort_desc[of scores] by (simp add: d_def)
  then have sd: "set d = set scores" and ld: "length d = length scores"
    by (auto dest: mset_eq_setD mset_eq_length)
  have desc: "sorted_wrt (\<lambda>a b. b \<le> a) d"
    using sorted_desc[OF nn] by (simp add: d_def)
  have kd: "k \<le> length d" using k ld by simp
  have "k - 1 < length d" using kd k(1) by linarith
  then have "thr \<in> set d" unfolding thr_def by (rule nth_mem)
  then have mem: "thr \<in> set scores" by (simp only: sd)
  have "NaN \<notin> set d" using nn by (simp only: sd not_False_eq_True)
  then have mn: "np_min (take k d) = Inr thr"
    unfolding thr_def using desc k(1) kd by (intro np_min_take_desc)
  have "length (filter (\<lambda>s. thr < s) d) < k"
    unfolding thr_def using desc k(1) kd by (rule count_above_desc)
  then have above: "length (filter (\<lambda>s. thr < s) scores) < k"
    using length_filter_mset_eq[OF md] by simp
  have "k \<le> length (filter (\<lambda>s. thr \<le> s) d)"
    unfolding thr_def using desc k(1) kd by (rule count_at_least_desc)
  then have atleast: "k \<le> length (filter (\<lambda>s. thr \<le> s) scores)"
    using length_filter_mset_eq[OF md] by simp
  show ?thesis using mem mn above atleast unfolding d_def by (rule that)
qed

lemma replicate_update:
  "i < n \<Longrightarrow> (replicate n x)[i := y] = replicate i x @ y # replicate (n - Suc i) x"
  by (simp add: upd_conv_take_nth_drop min_def)

lemma get_top_k_logits_one_hot:
  assumes "t < V"
  shows "get_top_k_logits (one_hot V t c) top_k = Inr (one_hot V t c)"
proof -
  let ?xs = "one_hot V t c"
  have xs: "?xs = replicate t NInf @ Fin c # replicate (V - Suc t) NInf"
    using assms by (simp add: one_hot_def replicate_update)
  have sub: "set ?xs \<subseteq> {NInf, Fin c}" by (auto simp: xs)
  have ne: "?xs \<noteq> []" by (simp add: xs)
  have nn: "NaN \<notin> set ?xs" using sub by auto
  obtain thr where thr: "thr \<in> set ?xs"
    "np_min (take (nat (min (max top_k 1) (int (length ?xs)))) (map fneg (sort (map fneg ?xs)))) = Inr thr"
    by (rule top_k_threshold[OF ne nn refl])
  have "get_top_k_logits ?xs top_k = Inr (map (\<lambda>s. if flt s thr then NInf else s) ?xs)"
    using thr(2) by (rule get_top_k_logits_via_threshold)
  moreover have "map (\<lambda>s. if flt s thr then NInf else s) ?xs = map (\<lambda>s. s) ?xs"
  proof (intro map_cong refl)
    fix s assume "s \<in> set ?xs"
    then have "s = NInf \<or> s = Fin c" using sub by auto
    moreover have "thr = NInf \<or> thr = Fin c" using thr(1) sub by auto
    ultimately show "(if flt s thr then NInf else s) = s" by (auto simp: flt_def)
  qed
  ultimately show ?thesis by simp
qed

lemma get_top_k_logits_unique_max:
  assumes i: "i < length scores" and m: "scores ! i = Fin m"
    and others: "\<And>j. j < length scores \<Longrightarrow> j \<noteq> i \<Longrightarrow> flt (scores ! j) (scores ! i)"
  shows "get_top_k_logits scores 1 = Inr (one_hot (length scores) i m)"
proof -
  have ne: "scores \<noteq> []" using i by auto
  have below: "s = Fin m \<or> (s \<noteq> NaN \<and> s < Fin m)" if "s \<in> set scores" for s
  proof -
    from that obtain j where j: "j < length scores" "s = scores ! j"
      by (auto simp: in_set_conv_nth)
    show ?thesis
    proof (cases "j = i")
      case True
      then show ?thesis using j m by simp
    next
      case False
      then show ?thesis using others[OF j(1) False] j m by (simp add: flt_def)
    qed
  qed
  have nn: "NaN \<notin> set scores" using below by auto
  have k1: "nat (min (max 1 1) (int (length scores))) = 1" using ne by (cases scores) simp_all
  obtain thr where thr: "thr \<in> set scores"
    "np_min (take 1 (map fneg (sort (map fneg scores)))) = Inr thr"
    "length (filter (\<lambda>s. thr < s) scores) < 1"
    by (rule top_k_threshold[OF ne nn k1[symmetric]])
  have "filter (\<lambda>s. thr < s) scores = []" using thr(3) by simp
  then have "\<not> thr < Fin m" using i m by (auto simp: filter_empty_conv dest: nth_mem)
  with below[OF thr(1)] have thr_eq: "thr = Fin m" by auto
  have "np_min (take (nat (min (max 1 1) (int (length scores)))) (map fneg (sort (map fneg scores)))) = Inr thr"
    using thr(2) by (simp only: k1)
  then have "get_top_k_logits scores 1 = Inr (map (\<lambda>s. if flt s thr then NInf else s) scores)"
    by (rule get_top_k_logits_via_threshold)
  moreover have "map (\<lambda>s. if flt s thr then NInf else s) scores = one_hot (length scores) i m"
  proof (rule nth_equalityI)
    show "length (map (\<lambda>s. if flt s thr then NInf else s) scores) = length (one_hot (length scores) i m)"
      by (simp add: one_hot_def)
  next
    fix j assume "j < length (map (\<lambda>s. if flt s thr then NInf else s) scores)"
    then have j: "j < length scores" by simp
    show "map (\<lambda>s. if flt s thr then NInf else s) scores ! j = one_hot (length scores) i m ! j"
    proof (cases "j = i")
      case True
      then show ?thesis using j m thr_eq by (simp add: one_hot_def flt_def)
    next
      case False
      then show ?thesis using j others[OF j False] m thr_eq by (simp add: one_hot_def)
    qed
  qed
  ultimately show ?thesis by simp
qed

text \<open>
  Claim C3.  For a non-empty score vector without \<open>nan\<close> and any integer \<open>top_k\<close>,
  \<open>get_top_k_logits\<close> works with \<open>k\<close>, the value of \<open>top_k\<close> clamped to \<open>[1, V]\<close>, and with
  the \<open>k\<close>-th largest score as threshold (a score of the vector such that fewer than
  \<open>k\<close> scores are strictly above it and at least \<open>k\<close> scores are at or above it).  Every
  entry strictly below the threshold becomes negative infinity, every entry at or above
  it (ties included) is left unchanged, so at least \<open>k\<close> entries are retained.
\<close>

theorem get_top_k_logits_keeps_top_k:
  assumes ne: "scores \<noteq> []" and nn: "NaN \<notin> set scores"
  shows "\<exists>k thr. int k = min (max top_k 1) (int (length scores))
           \<and> 1 \<le> k \<and> k \<le> length scores
           \<and> thr \<in> set scores
           \<and> length (filter (\<lambda>s. thr < s) scores) < k
           \<and> k \<le> length (filter (\<lambda>s. thr \<le> s) scores)
           \<and> get_top_k_logits scores top_k =
                 Inr (map (\<lambda>s. if s < thr then NInf else s) scores)"
proof -
  define k where "k = nat (min (max top_k 1) (int (length scores)))"
  obtain thr where thr: "thr \<in> set scores"
    "np_min (take k (map fneg (sort (map fneg scores)))) = Inr thr"
    "length (filter (\<lambda>s. thr < s) scores) < k"
    "k \<le> length (filter (\<lambda>s. thr \<le> s) scores)"
    by (rule top_k_threshold[OF ne nn k_def])
  have len: "1 \<le> int (length scores)" using ne by (cases scores) simp_all
  have k: "int k = min (max top_k 1) (int (length scores))" "1 \<le> k" "k \<le> length scores"
    unfolding k_def using len by linarith+
  have "get_top_k_logits scores top_k = Inr (map (\<lambda>s. if flt s thr then NInf else s) scores)"
    using thr(2) unfolding k_def by (rule get_top_k_logits_via_threshold)
  moreover have "map (\<lambda>s. if flt s thr then NInf else s) scores
      = map (\<lambda>s. if s < thr then NInf else s) scores"
    using nn thr(1) by (intro map_cong) (auto simp: flt_def)
  ultimately have res: "get_top_k_logits scores top_k =
      Inr (map (\<lambda>s. if s < thr then NInf else s) scores)" by simp
  show ?thesis using k thr(1) thr(3) thr(4) res by blast
qed

theorem get_top_k_logits_keeps_top_k_witness:
  "get_top_k_logits [Fin 1, Fin 3, Fin 2, Fin 3, Fin 1] 1 = Inr [NInf, Fin 3, NInf, Fin 3, NInf]"
proof -
  let ?scores = "[Fin 1, Fin 3, Fin 2, Fin 3, Fin 1]"
  have h1: "?scores \<noteq> []" by simp
  have h2: "NaN \<notin> set ?scores" by simp
  from get_top_k_logits_keeps_top_k [OF h1 h2, of 1]
  obtain k thr where kt: "int k = 1" "thr \<in> set ?scores"
    "length (filter (\<lambda>s. thr < s) ?scores) < k"
    "get_top_k_logits ?scores 1 = Inr (map (\<lambda>s. if s < thr then NInf else s) ?scores)"
    by auto
  from kt(1) have k1: "k = 1" by simp
  from kt(2) have "thr = Fin 1 \<or> thr = Fin 3 \<or> thr = Fin 2" by auto
  with kt(3) k1 have "thr = Fin 3" by auto
  with kt(4) show ?thesis by simp
qed

subsection \<open>Softmax and the draw on a one-hot vector\<close>

lemma fsum_Fin: "fsum (map Fin rs) = Fin (sum_list rs)"
  by (induction rs) simp_all

lemma cumsum_from_append:
  "cumsum_from a (xs @ ys) = cumsum_from a xs @ cumsum_from (a + sum_list xs) ys"
  by (induction xs arbitrary: a) (simp_all add: add.assoc)

lemma cumsum_from_zeros: "cumsum_from a (replicate n 0) = replicate n a"
  by (induction n) simp_all

lemma softmax_one_hot:
  assumes "i < V"
  shows "softmax (one_hot V i m) = Inr ((replicate V (Fin 0))[i := Fin 1])"
proof -
  let ?xs = "one_hot V i m"
  have xs: "?xs = replicate i NInf @ Fin m # replicate (V - Suc i) NInf"
    using assms by (simp add: one_hot_def replicate_update)
  have set_xs: "set ?xs \<subseteq> {NInf, Fin m}" "Fin m \<in> set ?xs"
    by (auto simp: xs)
  have "Max (set ?xs) = Fin m"
    using set_xs by (intro Max_eqI) auto
  moreover have "NaN \<notin> set ?xs" using set_xs by auto
  moreover have "?xs \<noteq> []" by (simp add: xs)
  ultimately have mx: "np_max ?xs = Inr (Fin m)" by (simp add: np_max_def)
  have ex: "map (\<lambda>v. fexp (fsub v (Fin m))) ?xs
      = map Fin (replicate i 0 @ 1 # replicate (V - Suc i) 0)"
    by (simp add: xs fsub_def)
  have sm: "fsum (map (\<lambda>v. fexp (fsub v (Fin m))) ?xs) = Fin 1"
    unfolding ex fsum_Fin by (simp add: sum_list_replicate)
  have "softmax ?xs = Inr (map (\<lambda>e. fdiv e (Fin 1)) (map Fin (replicate i 0 @ 1 # replicate (V - Suc i) 0)))"
    using mx sm ex by (simp add: softmax_def)
  also have "map (\<lambda>e. fdiv e (Fin 1)) (map Fin (replicate i 0 @ 1 # replicate (V - Suc i) 0))
      = (replicate V (Fin 0))[i := Fin 1]"
    using assms by (simp add: replicate_update)
  finally show ?thesis .
qed

lemma np_random_choice_one_hot:
  assumes "i < V" "0 \<le> u" "u < 1"
  shows "np_random_choice ((replicate V (Fin 0))[i := Fin 1]) u = Inr (int i)"
proof -
  let ?p = "(replicate V (Fin 0))[i := Fin 1]"
  let ?r = "replicate i (0::real) @ 1 # replicate (V - Suc i) 0"
  have p: "?p = map Fin ?r" using assms by (simp add: replicate_update)
  have ne: "?p \<noteq> []" using assms by auto
  have sm: "fsum ?p = Fin 1" unfolding p fsum_Fin by (simp add: sum_list_replicate)
  have nonneg: "\<not> list_ex (\<lambda>x. flt x (Fin 0)) ?p"
    unfolding p by (auto simp: list_ex_iff flt_def)
  have fv: "map fin_value ?p = ?r" unfolding p by (simp add: comp_def)
  have cdf: "cumsum ?r = replicate i 0 @ 1 # replicate (V - Suc i) 1"
    using cumsum_from_zeros[of 1 "V - Suc i"]
    by (simp add: cumsum_def cumsum_from_append cumsum_from_zeros sum_list_replicate)
  have lst: "last (cumsum ?r) = 1" unfolding cdf by simp
  have ss: "searchsorted_right (map (\<lambda>c. c / 1) (cumsum ?r)) u = i"
    unfolding cdf using assms by (simp add: searchsorted_right_def)
  show ?thesis
    using ne sm nonneg fv lst ss by (simp add: np_random_choice_def choice_atol_def Let_def)
qed

subsection \<open>The generation loop\<close>

lemma generate_loop_model_error:
  assumes "compiled_model (model_input_of input_ids max_sequence_length eos_token_id) = Inl e"
  shows "generate_loop compiled_model rng max_sequence_length eos_token_id input_ids calls
         = Some (calls @ [model_input_of input_ids max_sequence_length eos_token_id], Inl e)"
  using assms by (subst generate_loop.simps) simp

lemma generate_loop_sample_error:
  assumes "compiled_model (model_input_of input_ids max_sequence_length eos_token_id) = Inr outputs"
    and "next_token outputs input_ids eos_token_id (rng (length calls)) = Inl e"
  shows "generate_loop compiled_model rng max_sequence_length eos_token_id input_ids calls
         = Some (calls @ [model_input_of input_ids max_sequence_length eos_token_id], Inl e)"
  using assms by (subst generate_loop.simps) simp

lemma generate_loop_stop:
  assumes "compiled_model (model_input_of input_ids max_sequence_length eos_token_id) = Inr outputs"
    and "next_token outputs input_ids eos_token_id (rng (length calls)) = Inr t"
    and "int (length input_ids) = max_sequence_length \<or> t = eos_token_id"
  shows "generate_loop compiled_model rng max_sequence_length eos_token_id input_ids calls
         = Some (calls @ [model_input_of input_ids max_sequence_length eos_token_id], Inr input_ids)"
  using assms by (subst generate_loop.simps) auto

lemma generate_loop_continue:
  assumes "compiled_model (model_input_of input_ids max_sequence_length eos_token_id) = Inr outputs"
    and "next_token outputs input_ids eos_token_id (rng (length calls)) = Inr t"
    and "int (length input_ids) \<noteq> max_sequence_length" and "t \<noteq> eos_token_id"
  shows "generate_loop compiled_model rng max_sequence_length eos_token_id input_ids calls
         = generate_loop compiled_model rng max_sequence_length eos_token_id (input_ids @ [t])
             (calls @ [model_input_of input_ids max_sequence_length eos_token_id])"
  using assms by (subst generate_loop.simps) simp

lemma generate_loop_terminates:
  assumes "int (length input_ids) \<le> max_sequence_length"
  shows "\<exists>calls' res. generate_loop compiled_model rng max_sequence_length eos_token_id input_ids calls
            = Some (calls', res)
          \<and> (\<forall>out. res = Inr out \<longrightarrow>
                length input_ids \<le> length out \<and> int (length out) \<le> max_sequence_length
                \<and> take (length input_ids) out = input_ids)"
  using assms
proof (induction "nat (max_sequence_length - int (length input_ids))" arbitrary: input_ids calls)
  case 0
  then have full: "int (length input_ids) = max_sequence_length" by simp
  let ?inp = "model_input_of input_ids max_sequence_length eos_token_id"
  show ?case
  proof (cases "compiled_model ?inp")
    case (Inl e)
    then show ?thesis by (simp add: generate_loop_model_error)
  next
    case (Inr outputs)
    show ?thesis
    proof (cases "next_token outputs input_ids eos_token_id (rng (length calls))")
      case (Inl e)
      with Inr show ?thesis by (simp add: generate_loop_sample_error)
    next
      case tok: (Inr t)
      with Inr full show ?thesis by (simp add: generate_loop_stop)
    qed
  qed
next
  case (Suc n)
  then have less: "int (length input_ids) < max_sequence_length" by linarith
  let ?inp = "model_input_of input_ids max_sequence_length eos_token_id"
  show ?case
  proof (cases "compiled_model ?inp")
    case (Inl e)
    then show ?thesis by (simp add: generate_loop_model_error)
  next
    case (Inr outputs)
    show ?thesis
    proof (cases "next_token outputs input_ids eos_token_id (rng (length calls))")
      case (Inl e)
      with Inr show ?thesis by (simp add: generate_loop_sample_error)
    next
      case tok: (Inr t)
      show ?thesis
      proof (cases "t = eos_token_id")
        case True
        with Inr tok less show ?thesis by (simp add: generate_loop_stop)
      next
        case False
        have step: "generate_loop compiled_model rng max_sequence_length eos_token_id input_ids calls
          = generate_loop compiled_model rng max_sequence_length eos_token_id (input_ids @ [t])
              (calls @ [?inp])"
          using Inr tok less False by (intro generate_loop_continue) auto
        have m: "n = nat (max_sequence_length - int (length (input_ids @ [t])))"
          using Suc.hyps(2) by simp
        have le: "int (length (input_ids @ [t])) \<le> max_sequence_length" using less by simp
        from Suc.hyps(1)[OF m le, of "calls @ [?inp]"]
        obtain calls' res where r:
          "generate_loop compiled_model rng max_sequence_length eos_token_id (input_ids @ [t])
             (calls @ [?inp]) = Some (calls', res)"
          "\<forall>out. res = Inr out \<longrightarrow>
                length (input_ids @ [t]) \<le> length out \<and> int (length out) \<le> max_sequence_length
                \<and> take (length (input_ids @ [t])) out = input_ids @ [t]"
          by blast
        have "take (length input_ids) out = input_ids"
          if "take (length (input_ids @ [t])) out = input_ids @ [t]" for out
        proof -
          have "take (length input_ids) (take (length (input_ids @ [t])) out) = take (length input_ids) out"
            by (simp add: min_def)
          with that show ?thesis by simp
        qed
        with r show ?thesis unfolding step by auto
      qed
    qed
  qed
qed

lemma generate_loop_result:
  assumes "generate_loop compiled_model rng max_sequence_length eos_token_id input_ids calls = Some y"
  shows "(\<exists>more. fst y = calls @ model_input_of input_ids max_sequence_length eos_token_id # more)
       \<and> (\<forall>out. snd y = Inr out \<longrightarrow> take (length input_ids) out = input_ids)"
proof (rule generate_loop.raw_induct[where P = "\<lambda>compiled_model rng max_sequence_length
      eos_token_id input_ids calls y.
        (\<exists>more. fst y = calls @ model_input_of input_ids max_sequence_length eos_token_id # more)
        \<and> (\<forall>out. snd y = Inr out \<longrightarrow> take (length input_ids) out = input_ids)", OF _ assms],
    goal_cases)
  case (1 loop compiled_model rng max_sequence_length eos_token_id input_ids calls y)
  let ?inp = "model_input_of input_ids max_sequence_length eos_token_id"
  show ?case
  proof (cases "compiled_model ?inp")
    case (Inl e)
    with 1(2) show ?thesis by auto
  next
    case (Inr outputs)
    show ?thesis
    proof (cases "next_token outputs input_ids eos_token_id (rng (length calls))")
      case (Inl e)
      with Inr 1(2) show ?thesis by auto
    next
      case tok: (Inr t)
      show ?thesis
      proof (cases "int (length input_ids) = max_sequence_length \<or> t = eos_token_id")
        case True
        with Inr tok 1(2) show ?thesis by auto
      next
        case False
        with Inr tok 1(2) have rec: "loop compiled_model rng max_sequence_length eos_token_id
            (input_ids @ [t]) (calls @ [?inp]) = Some y" by simp
        from 1(1)[OF rec] obtain more where
          m: "fst y = (calls @ [?inp]) @ model_input_of (input_ids @ [t]) max_sequence_length eos_token_id # more"
          and pre: "\<forall>out. snd y = Inr out \<longrightarrow> take (length (input_ids @ [t])) out = input_ids @ [t]"
          by blast
        have "take (length input_ids) out = input_ids"
          if "take (length (input_ids @ [t])) out = input_ids @ [t]" for out
        proof -
          have "take (length input_ids) (take (length (input_ids @ [t])) out) = take (length input_ids) out"
            by (simp add: min_def)
          with that show ?thesis by simp
        qed
        with m pre show ?thesis by auto
      qed
    qed
  qed
qed

lemma length_model_input_of:
  "length input_ids \<le> length (model_input_of input_ids max_sequence_length eos_token_id)"
  by (simp add: model_input_of_def)

lemma model_input_of_full:
  "max_sequence_length \<le> int (length input_ids) \<Longrightarrow>
   model_input_of input_ids max_sequence_length eos_token_id = input_ids"
  by (simp add: model_input_of_def)

lemma next_token_one_hot:
  assumes t: "t < V" and u: "0 \<le> u" "u < 1"
    and ids: "input_ids \<noteq> []" "length input_ids \<le> n"
  shows "next_token (replicate n (one_hot V t 0)) input_ids eos_token_id u = Inr (int t)"
proof -
  have pos: "0 < length input_ids" using ids(1) by simp
  have "py_index n (int (length input_ids) - 1) = Inr (length input_ids - 1)"
    using pos ids(2) by (simp add: py_index_def Let_def nat_diff_distrib)
  moreover have "length input_ids - 1 < n" using pos ids(2) by linarith
  ultimately have g: "np_getitem (replicate n (one_hot V t 0)) (int (length input_ids) - 1)
      = Inr (one_hot V t 0)"
    by (simp add: np_getitem_def)
  have p: "process_logits input_ids (one_hot V t 0) eos_token_id 0 = Inr (one_hot V t 0)"
    by (simp add: process_logits_def)
  show ?thesis
    using g p get_top_k_logits_one_hot[OF t, of 0 20] softmax_one_hot[OF t, of 0]
      np_random_choice_one_hot[OF t u]
    by (simp add: next_token_def)
qed

lemma one_hot_model_always_samples:
  assumes "t < V" "0 \<le> u" "u < 1" "ids \<noteq> []"
  shows "\<exists>outputs. one_hot_model V t (model_input_of ids max_sequence_length eos_token_id) = Inr outputs
          \<and> next_token outputs ids eos_token_id u = Inr (int t)"
  using assms next_token_one_hot[OF assms(1-4) length_model_input_of]
  by (simp add: one_hot_model_def)

lemma model_input_of_example:
  "model_input_of [5, 9, 2] 5 50 = [5, 9, 2, 50, 50]"
  "model_input_of [5, 9, 2, 7] 5 50 = [5, 9, 2, 7, 50]"
  "model_input_of [5, 9, 2, 7, 7] 5 50 = [5, 9, 2, 7, 7]"
  "model_input_of [5, 9, 2] 2 50 = [5, 9, 2]"
  by (simp_all add: model_input_of_def eval_nat_numeral)

text \<open>
  Claim C1.  When the stop condition holds after a token was sampled (the current length
  equals \<open>max_sequence_length\<close>, or the sampled token equals \<open>eos_token_id\<close>), the loop
  returns \<open>input_ids\<close> as they are: the just-sampled token is not appended.  In
  particular, with prompt \<open>[5, 9, 2]\<close>, \<open>max_sequence_length = 5\<close> and \<open>eos_token_id = 50\<close>,
  a model and draws that make the sampler pick token \<open>50\<close> every time give \<open>[5, 9, 2]\<close>,
  and a model and draws that make it pick token \<open>7\<close> every time give \<open>[5, 9, 2, 7, 7]\<close>.
\<close>

theorem generate_sequence_discards_stopping_token:
  "(compiled_model (model_input_of input_ids max_sequence_length eos_token_id) = Inr outputs
      \<and> next_token outputs input_ids eos_token_id (rng (length calls)) = Inr t
      \<and> (int (length input_ids) = max_sequence_length \<or> t = eos_token_id)
    \<longrightarrow> generate_loop compiled_model rng max_sequence_length eos_token_id input_ids calls
          = Some (calls @ [model_input_of input_ids max_sequence_length eos_token_id],
                  Inr input_ids))
   \<and> ((\<forall>ids n. ids \<noteq> [] \<longrightarrow>
          (\<exists>outs. model50 (model_input_of ids 5 50) = Inr outs
                  \<and> next_token outs ids 50 (rng50 n) = Inr 50))
       \<longrightarrow> generate_sequence model50 rng50 [5, 9, 2] 5 50
             = Some ([[5, 9, 2, 50, 50]], Inr [5, 9, 2]))
   \<and> ((\<forall>ids n. ids \<noteq> [] \<longrightarrow>
          (\<exists>outs. model7 (model_input_of ids 5 50) = Inr outs
                  \<and> next_token outs ids 50 (rng7 n) = Inr 7))
       \<longrightarrow> generate_sequence model7 rng7 [5, 9, 2] 5 50
             = Some ([[5, 9, 2, 50, 50], [5, 9, 2, 7, 50], [5, 9, 2, 7, 7]],
                     Inr [5, 9, 2, 7, 7]))"
proof (intro conjI impI)
  assume "compiled_model (model_input_of input_ids max_sequence_length eos_token_id) = Inr outputs
      \<and> next_token outputs input_ids eos_token_id (rng (length calls)) = Inr t
      \<and> (int (length input_ids) = max_sequence_length \<or> t = eos_token_id)"
  then show "generate_loop compiled_model rng max_sequence_length eos_token_id input_ids calls
          = Some (calls @ [model_input_of input_ids max_sequence_length eos_token_id],
                  Inr input_ids)"
    by (intro generate_loop_stop) auto
next
  assume H: "\<forall>ids n. ids \<noteq> [] \<longrightarrow>
          (\<exists>outs. model50 (model_input_of ids 5 50) = Inr outs
                  \<and> next_token outs ids 50 (rng50 n) = Inr 50)"
  from H[rule_format, of "[5, 9, 2]" "length ([]::int list list)"] obtain outs where
    "model50 (model_input_of [5, 9, 2] 5 50) = Inr outs"
    "next_token outs [5, 9, 2] 50 (rng50 (length ([]::int list list))) = Inr 50"
    by blast
  then have "generate_loop model50 rng50 5 50 [5, 9, 2] []
      = Some ([] @ [model_input_of [5, 9, 2] 5 50], Inr [5, 9, 2])"
    by (intro generate_loop_stop) auto
  then show "generate_sequence model50 rng50 [5, 9, 2] 5 50
             = Some ([[5, 9, 2, 50, 50]], Inr [5, 9, 2])"
    by (simp add: generate_sequence_def model_input_of_example)
next
  assume H: "\<forall>ids n. ids \<noteq> [] \<longrightarrow>
          (\<exists>outs. model7 (model_input_of ids 5 50) = Inr outs
                  \<and> next_token outs ids 50 (rng7 n) = Inr 7)"
  from H[rule_format, of "[5, 9, 2]" "length ([]::int list list)"] obtain o1 where o1:
    "model7 (model_input_of [5, 9, 2] 5 50) = Inr o1"
    "next_token o1 [5, 9, 2] 50 (rng7 (length ([]::int list list))) = Inr 7"
    by blast
  from H[rule_format, of "[5, 9, 2, 7]" "length [[5, 9, 2, 50, 50::int]]"] obtain o2 where o2:
    "model7 (model_input_of [5, 9, 2, 7] 5 50) = Inr o2"
    "next_token o2 [5, 9, 2, 7] 50 (rng7 (length [[5, 9, 2, 50, 50::int]])) = Inr 7"
    by blast
  from H[rule_format, of "[5, 9, 2, 7, 7]" "length [[5, 9, 2, 50, 50], [5, 9, 2, 7, 50::int]]"]
  obtain o3 where o3:
    "model7 (model_input_of [5, 9, 2, 7, 7] 5 50) = Inr o3"
    "next_token o3 [5, 9, 2, 7, 7] 50 (rng7 (length [[5, 9, 2, 50, 50], [5, 9, 2, 7, 50::int]])) = Inr 7"
    by blast
  have s1: "generate_loop model7 rng7 5 50 [5, 9, 2] []
      = generate_loop model7 rng7 5 50 ([5, 9, 2] @ [7]) ([] @ [model_input_of [5, 9, 2] 5 50])"
    using o1 by (intro generate_loop_continue) auto
  have s2: "generate_loop model7 rng7 5 50 [5, 9, 2, 7] [[5, 9, 2, 50, 50]]
      = generate_loop model7 rng7 5 50 ([5, 9, 2, 7] @ [7])
          ([[5, 9, 2, 50, 50]] @ [model_input_of [5, 9, 2, 7] 5 50])"
    using o2 by (intro generate_loop_continue) auto
  have s3: "generate_loop model7 rng7 5 50 [5, 9, 2, 7, 7] [[5, 9, 2, 50, 50], [5, 9, 2, 7, 50]]
      = Some ([[5, 9, 2, 50, 50], [5, 9, 2, 7, 50]] @ [model_input_of [5, 9, 2, 7, 7] 5 50],
              Inr [5, 9, 2, 7, 7])"
    using o3 by (intro generate_loop_stop) auto
  show "generate_sequence model7 rng7 [5, 9, 2] 5 50
             = Some ([[5, 9, 2, 50, 50], [5, 9, 2, 7, 50], [5, 9, 2, 7, 7]],
                     Inr [5, 9, 2, 7, 7])"
    using s1 s2 s3 by (simp add: generate_sequence_def model_input_of_example)
qed

lemma one_hot_model_stop:
  assumes "t < V" "input_ids \<noteq> []" "0 \<le> rng (length calls)" "rng (length calls) < 1"
    and "int (length input_ids) = max_sequence_length \<or> int t = eos_token_id"
  shows "generate_loop (one_hot_model V t) rng max_sequence_length eos_token_id input_ids calls
         = Some (calls @ [model_input_of input_ids max_sequence_length eos_token_id], Inr input_ids)"
proof -
  from one_hot_model_always_samples[OF assms(1,3,4,2)]
  obtain outputs where
    "one_hot_model V t (model_input_of input_ids max_sequence_length eos_token_id) = Inr outputs"
    "next_token outputs input_ids eos_token_id (rng (length calls)) = Inr (int t)"
    by blast
  then show ?thesis using assms(5) by (rule generate_loop_stop)
qed

lemma one_hot_model_continue:
  assumes "t < V" "input_ids \<noteq> []" "0 \<le> rng (length calls)" "rng (length calls) < 1"
    and "int (length input_ids) \<noteq> max_sequence_length" "int t \<noteq> eos_token_id"
  shows "generate_loop (one_hot_model V t) rng max_sequence_length eos_token_id input_ids calls
         = generate_loop (one_hot_model V t) rng max_sequence_length eos_token_id
             (input_ids @ [int t])
             (calls @ [model_input_of input_ids max_sequence_length eos_token_id])"
proof -
  from one_hot_model_always_samples[OF assms(1,3,4,2)]
  obtain outputs where
    "one_hot_model V t (model_input_of input_ids max_sequence_length eos_token_id) = Inr outputs"
    "next_token outputs input_ids eos_token_id (rng (length calls)) = Inr (int t)"
    by blast
  then show ?thesis using assms(5,6) by (rule generate_loop_continue)
qed

lemma run_fill_to_max:
  "generate_sequence (one_hot_model 51 7) (\<lambda>n. 1 / 2) [5, 9, 2] 5 50
     = Some ([[5, 9, 2, 50, 50], [5, 9, 2, 7, 50], [5, 9, 2, 7, 7]], Inr [5, 9, 2, 7, 7])"
  by (simp add: generate_sequence_def one_hot_model_continue one_hot_model_stop
      model_input_of_example)

lemma run_eos_at_once:
  "generate_sequence (one_hot_model 51 50) (\<lambda>n. 1 / 2) [5, 9, 2] 5 50
     = Some ([[5, 9, 2, 50, 50]], Inr [5, 9, 2])"
  by (simp add: generate_sequence_def one_hot_model_stop model_input_of_example)

theorem generate_sequence_discards_stopping_token_witness:
  "generate_loop (one_hot_model 51 50) (\<lambda>n. 1 / 2) 5 50 [5, 9, 2] []
     = Some ([[5, 9, 2, 50, 50]], Inr [5, 9, 2])
   \<and> generate_sequence (one_hot_model 51 50) (\<lambda>n. 1 / 2) [5, 9, 2] 5 50
     = Some ([[5, 9, 2, 50, 50]], Inr [5, 9, 2])
   \<and> generate_sequence (one_hot_model 51 7) (\<lambda>n. 1 / 2) [5, 9, 2] 5 50
     = Some ([[5, 9, 2, 50, 50], [5, 9, 2, 7, 50], [5, 9, 2, 7, 7]], Inr [5, 9, 2, 7, 7])"
proof -
  have a50: "\<forall>ids n. ids \<noteq> [] \<longrightarrow>
      (\<exists>outs. one_hot_model 51 50 (model_input_of ids 5 50) = Inr outs
             \<and> next_token outs ids 50 ((\<lambda>n. 1 / 2) n) = Inr 50)"
    using one_hot_model_always_samples[of 50 51 "1 / 2" _ 5 50] by simp
  have a7: "\<forall>ids n. ids \<noteq> [] \<longrightarrow>
      (\<exists>outs. one_hot_model 51 7 (model_input_of ids 5 50) = Inr outs
             \<and> next_token outs ids 50 ((\<lambda>n. 1 / 2) n) = Inr 7)"
    using one_hot_model_always_samples[of 7 51 "1 / 2" _ 5 50] by simp
  obtain outs where o:
    "one_hot_model 51 50 (model_input_of [5, 9, 2] 5 50) = Inr outs"
    "next_token outs [5, 9, 2] 50 ((\<lambda>n. 1 / 2) (length ([]::int list list))) = Inr 50"
    using a50 by force
  note inst = generate_sequence_discards_stopping_token
    [of "one_hot_model 51 50" "[5, 9, 2]" 5 50 outs "\<lambda>n. 1 / 2" "[]" 50
        "one_hot_model 51 50" "\<lambda>n. 1 / 2" "one_hot_model 51 7" "\<lambda>n. 1 / 2"]
  show ?thesis using inst o a50 a7 by (simp add: model_input_of_example)
qed

text \<open>
  Claim C2.  For every prompt with \<open>1 \<le> length prompt_tokens \<le> max_sequence_length\<close>, every
  model and every sequence of draws, the run of \<open>generate_sequence\<close> ends, and a returned
  token sequence has at least the length of the prompt and at most \<open>max_sequence_length\<close>.
  (The run ends with an exception instead when the model or a numpy operation raises
  one.)
\<close>

theorem generate_sequence_length_bounds:
  assumes "1 \<le> length prompt_tokens"
    and "int (length prompt_tokens) \<le> max_sequence_length"
  shows "\<exists>calls res.
           generate_sequence compiled_model rng prompt_tokens max_sequence_length eos_token_id
             = Some (calls, res)
           \<and> (\<forall>out. res = Inr out \<longrightarrow>
                 length prompt_tokens \<le> length out \<and> int (length out) \<le> max_sequence_length)"
proof -
  from generate_loop_terminates[OF assms(2), of compiled_model rng eos_token_id "[]"]
  obtain calls res where
    run: "generate_loop compiled_model rng max_sequence_length eos_token_id prompt_tokens []
            = Some (calls, res)"
    and out: "\<forall>out. res = Inr out \<longrightarrow>
                length prompt_tokens \<le> length out \<and> int (length out) \<le> max_sequence_length
                \<and> take (length prompt_tokens) out = prompt_tokens"
    by blast
  from run have "generate_sequence compiled_model rng prompt_tokens max_sequence_length eos_token_id
      = Some (calls, res)"
    by (simp add: generate_sequence_def)
  moreover from out have "\<forall>out. res = Inr out \<longrightarrow>
      length prompt_tokens \<le> length out \<and> int (length out) \<le> max_sequence_length"
    by blast
  ultimately show ?thesis by blast
qed

theorem generate_sequence_length_bounds_witness:
  "1 \<le> length [5, 9, 2 :: int] \<and> int (length [5, 9, 2 :: int]) \<le> 5
   \<and> (\<exists>calls out.
         generate_sequence (one_hot_model 51 7) (\<lambda>n. 1 / 2) [5, 9, 2] 5 50 = Some (calls, Inr out)
         \<and> length [5, 9, 2 :: int] \<le> length out \<and> int (length out) \<le> 5)"
proof -
  have h1: "1 \<le> length [5, 9, 2 :: int]" by simp
  have h2: "int (length [5, 9, 2 :: int]) \<le> 5" by simp
  from generate_sequence_length_bounds[OF h1 h2, of "one_hot_model 51 7" "\<lambda>n. 1 / 2" 50]
  obtain calls res where
    run: "generate_sequence (one_hot_model 51 7) (\<lambda>n. 1 / 2) [5, 9, 2] 5 50 = Some (calls, res)"
    and out: "\<forall>out. res = Inr out \<longrightarrow>
                length [5, 9, 2 :: int] \<le> length out \<and> int (length out) \<le> 5"
    by blast
  from run have res: "res = Inr [5, 9, 2, 7, 7]" by (simp add: run_fill_to_max)
  with out have "length [5, 9, 2 :: int] \<le> length [5, 9, 2, 7, 7 :: int]
      \<and> int (length [5, 9, 2, 7, 7 :: int]) \<le> 5" by blast
  with run res h1 h2 show ?thesis by blast
qed

text \<open>
  Claim C10.  For every prompt with \<open>length prompt_tokens \<le> max_sequence_length\<close>, every
  model and every sequence of draws, the run of \<open>generate_sequence\<close> ends, and a returned
  token sequence starts with the prompt: its first \<open>length prompt_tokens\<close> tokens are the
  prompt's, in order.
\<close>

theorem generate_sequence_keeps_prompt_prefix:
  assumes "int (length prompt_tokens) \<le> max_sequence_length"
  shows "\<exists>calls res.
           generate_sequence compiled_model rng prompt_tokens max_sequence_length eos_token_id
             = Some (calls, res)
           \<and> (\<forall>out. res = Inr out \<longrightarrow> take (length prompt_tokens) out = prompt_tokens)"
proof -
  from generate_loop_terminates[OF assms, of compiled_model rng eos_token_id "[]"]
  obtain calls res where
    run: "generate_loop compiled_model rng max_sequence_length eos_token_id prompt_tokens []
            = Some (calls, res)"
    and out: "\<forall>out. res = Inr out \<longrightarrow>
                length prompt_tokens \<le> length out \<and> int (length out) \<le> max_sequence_length
                \<and> take (length prompt_tokens) out = prompt_tokens"
    by blast
  from run have "generate_sequence compiled_model rng prompt_tokens max_sequence_length eos_token_id
      = Some (calls, res)"
    by (simp add: generate_sequence_def)
  moreover from out have "\<forall>out. res = Inr out \<longrightarrow> take (length prompt_tokens) out = prompt_tokens"
    by blast
  ultimately show ?thesis by blast
qed

theorem generate_sequence_keeps_prompt_prefix_witness:
  "int (length [5, 9, 2 :: int]) \<le> 5
   \<and> (\<exists>calls out.
         generate_sequence (one_hot_model 51 7) (\<lambda>n. 1 / 2) [5, 9, 2] 5 50 = Some (calls, Inr out)
         \<and> take (length [5, 9, 2 :: int]) out = [5, 9, 2])"
proof -
  have h: "int (length [5, 9, 2 :: int]) \<le> 5" by simp
  from generate_sequence_keeps_prompt_prefix[OF h, of "one_hot_model 51 7" "\<lambda>n. 1 / 2" 50]
  obtain calls res where
    run: "generate_sequence (one_hot_model 51 7) (\<lambda>n. 1 / 2) [5, 9, 2] 5 50 = Some (calls, res)"
    and out: "\<forall>out. res = Inr out \<longrightarrow> take (length [5, 9, 2 :: int]) out = [5, 9, 2]"
    by blast
  from run have res: "res = Inr [5, 9, 2, 7, 7]" by (simp add: run_fill_to_max)
  with out have "take (length [5, 9, 2 :: int]) [5, 9, 2, 7, 7] = [5, 9, 2 :: int]" by blast
  with run res h show ?thesis by blast
qed

text \<open>
  Claim C4 says that the model is not invoked in an iteration that starts with a sequence
  of maximal length.  The loop tests its stop condition only after the model call and the
  draw: started on the five tokens \<open>[5, 9, 2, 7, 7]\<close> with \<open>max_sequence_length = 5\<close>, it
  invokes the model on exactly this row before it returns.
\<close>

theorem model_called_at_max_length_counterexample:
  "generate_sequence (one_hot_model 51 7) (\<lambda>n. 1 / 2) [5, 9, 2, 7, 7] 5 50
     = Some ([[5, 9, 2, 7, 7]], Inr [5, 9, 2, 7, 7])"
  by (simp add: generate_sequence_def one_hot_model_stop model_input_of_example)

text \<open>
  Claim C4, amended.  Whenever the current length equals \<open>max_sequence_length\<close> at the
  start of an iteration, that iteration still invokes the model, on \<open>input_ids\<close> themselves
  (nothing is left to pad).  If the model raises, its exception is the outcome.  Otherwise
  a token is sampled from the logits at the last position; if the sampling raises, that
  exception is the outcome, and otherwise the generator returns \<open>input_ids\<close> unchanged,
  whatever the sampled token is.
\<close>

theorem generate_loop_at_max_length:
  assumes "int (length input_ids) = max_sequence_length"
  shows "generate_loop compiled_model rng max_sequence_length eos_token_id input_ids calls
           = (case compiled_model input_ids of
                Inl e \<Rightarrow> Some (calls @ [input_ids], Inl e)
              | Inr outputs \<Rightarrow>
                 (case next_token outputs input_ids eos_token_id (rng (length calls)) of
                    Inl e \<Rightarrow> Some (calls @ [input_ids], Inl e)
                  | Inr t \<Rightarrow> Some (calls @ [input_ids], Inr input_ids)))"
proof -
  have inp: "model_input_of input_ids max_sequence_length eos_token_id = input_ids"
    using assms by (simp add: model_input_of_full)
  show ?thesis
    by (subst generate_loop.simps) (simp add: inp assms split: sum.splits)
qed

theorem generate_loop_at_max_length_witness:
  "int (length [5, 9, 2, 4, 8 :: int]) = 5
   \<and> generate_loop (one_hot_model 51 7) (\<lambda>n. 1 / 2) 5 50 [5, 9, 2, 4, 8] [[5, 9, 2, 4, 50]]
       = Some ([[5, 9, 2, 4, 50], [5, 9, 2, 4, 8]], Inr [5, 9, 2, 4, 8])
   \<and> generate_loop (\<lambda>row. Inl RuntimeError) (\<lambda>n. 1 / 2) 5 50 [5, 9, 2, 4, 8] [[5, 9, 2, 4, 50]]
       = Some ([[5, 9, 2, 4, 50], [5, 9, 2, 4, 8]], Inl RuntimeError)
   \<and> generate_loop (\<lambda>row. Inr (replicate (length row) [NInf, NInf])) (\<lambda>n. 1 / 2) 5 50
         [5, 9, 2, 4, 8] [[5, 9, 2, 4, 50]]
       = Some ([[5, 9, 2, 4, 50], [5, 9, 2, 4, 8]], Inl ValueError)"
proof -
  let ?ids = "[5, 9, 2, 4, 8 :: int]"
  have h: "int (length ?ids) = 5" by simp
  have m: "one_hot_model 51 7 ?ids = Inr (replicate (length ?ids) (one_hot 51 7 0))"
    by (simp only: one_hot_model_def)
  have t: "next_token (replicate (length ?ids) (one_hot 51 7 0)) ?ids 50 (1 / 2) = Inr (int 7)"
    by (rule next_token_one_hot) simp_all
  have a: "generate_loop (one_hot_model 51 7) (\<lambda>n. 1 / 2) 5 50 ?ids [[5, 9, 2, 4, 50]]
       = Some ([[5, 9, 2, 4, 50], ?ids], Inr ?ids)"
    unfolding generate_loop_at_max_length[OF h] m using t by simp
  have b: "generate_loop (\<lambda>row. Inl RuntimeError) (\<lambda>n. 1 / 2) 5 50 ?ids [[5, 9, 2, 4, 50]]
       = Some ([[5, 9, 2, 4, 50], ?ids], Inl RuntimeError)"
    unfolding generate_loop_at_max_length[OF h] by simp
  have mx: "Max (set [NInf, NInf]) = NInf" by simp
  have nt: "next_token (replicate (length ?ids) [NInf, NInf]) ?ids 50 (1 / 2) = Inl ValueError"
    by (simp add: next_token_def np_getitem_def py_index_def process_logits_def
        get_top_k_logits_def np_min_def ma_filled_def flt_def softmax_def np_max_def fsub_def
        np_random_choice_def)
  have c: "generate_loop (\<lambda>row. Inr (replicate (length row) [NInf, NInf])) (\<lambda>n. 1 / 2) 5 50
         ?ids [[5, 9, 2, 4, 50]]
       = Some ([[5, 9, 2, 4, 50], ?ids], Inl ValueError)"
    unfolding generate_loop_at_max_length[OF h] using nt by simp
  show ?thesis using h a b c by simp
qed

text \<open>
  Claim C8 says that a prompt longer than \<open>max_sequence_length\<close> is rejected before any
  model call.  The notebook has no such check: with prompt \<open>[5, 9, 2]\<close> and
  \<open>max_sequence_length = 2\<close> the model is invoked on the prompt and, the sampled token
  being \<open>eos_token_id\<close>, the prompt is returned.
\<close>

theorem long_prompt_not_rejected_counterexample:
  "generate_sequence (one_hot_model 51 50) (\<lambda>n. 1 / 2) [5, 9, 2] 2 50
     = Some ([[5, 9, 2]], Inr [5, 9, 2])"
  by (simp add: generate_sequence_def one_hot_model_stop model_input_of_example)

text \<open>
  Claim C8, amended.  If the prompt is longer than \<open>max_sequence_length\<close>, no check is made
  and no error is raised on entry: \<open>generate_sequence\<close> invokes the model on the prompt
  without padding and samples a token.  If the model or the sampling raises, that
  exception is the outcome; if the sampled token is \<open>eos_token_id\<close>, the prompt is returned
  unchanged.  Whenever the run ends, its first model call was on the prompt itself.
  (Nothing is said here about the run after another token was sampled.)
\<close>

theorem generate_sequence_long_prompt:
  assumes "max_sequence_length < int (length prompt_tokens)"
  shows "(compiled_model prompt_tokens = Inl e
            \<longrightarrow> generate_sequence compiled_model rng prompt_tokens max_sequence_length eos_token_id
                  = Some ([prompt_tokens], Inl e))
       \<and> (compiled_model prompt_tokens = Inr outputs
            \<and> next_token outputs prompt_tokens eos_token_id (rng 0) = Inl e
            \<longrightarrow> generate_sequence compiled_model rng prompt_tokens max_sequence_length eos_token_id
                  = Some ([prompt_tokens], Inl e))
       \<and> (compiled_model prompt_tokens = Inr outputs
            \<and> next_token outputs prompt_tokens eos_token_id (rng 0) = Inr eos_token_id
            \<longrightarrow> generate_sequence compiled_model rng prompt_tokens max_sequence_length eos_token_id
                  = Some ([prompt_tokens], Inr prompt_tokens))
       \<and> (\<forall>calls res.
             generate_sequence compiled_model rng prompt_tokens max_sequence_length eos_token_id
               = Some (calls, res)
             \<longrightarrow> (\<exists>more. calls = prompt_tokens # more))"
proof -
  have inp: "model_input_of prompt_tokens max_sequence_length eos_token_id = prompt_tokens"
    using assms by (simp add: model_input_of_full)
  have c1: "generate_sequence compiled_model rng prompt_tokens max_sequence_length eos_token_id
      = Some ([prompt_tokens], Inl e)"
    if "compiled_model prompt_tokens = Inl e"
    using that generate_loop_model_error[of compiled_model prompt_tokens max_sequence_length
        eos_token_id e rng "[]"]
    by (simp add: generate_sequence_def inp)
  have c2: "generate_sequence compiled_model rng prompt_tokens max_sequence_length eos_token_id
      = Some ([prompt_tokens], Inl e)"
    if "compiled_model prompt_tokens = Inr outputs"
      and "next_token outputs prompt_tokens eos_token_id (rng 0) = Inl e"
    using that generate_loop_sample_error[of compiled_model prompt_tokens max_sequence_length
        eos_token_id outputs rng "[]" e]
    by (simp add: generate_sequence_def inp)
  have c3: "generate_sequence compiled_model rng prompt_tokens max_sequence_length eos_token_id
      = Some ([prompt_tokens], Inr prompt_tokens)"
    if "compiled_model prompt_tokens = Inr outputs"
      and "next_token outputs prompt_tokens eos_token_id (rng 0) = Inr eos_token_id"
    using that generate_loop_stop[of compiled_model prompt_tokens max_sequence_length
        eos_token_id outputs rng "[]" eos_token_id]
    by (simp add: generate_sequence_def inp)
  have c4: "\<exists>more. calls = prompt_tokens # more"
    if "generate_sequence compiled_model rng prompt_tokens max_sequence_length eos_token_id
          = Some (calls, res)" for calls res
  proof -
    from that have "generate_loop compiled_model rng max_sequence_length eos_token_id
        prompt_tokens [] = Some (calls, res)"
      by (simp add: generate_sequence_def)
    from generate_loop_result[OF this] inp show ?thesis by simp
  qed
  show ?thesis using c1 c2 c3 c4 by blast
qed

theorem generate_sequence_long_prompt_witness:
  "(3::int) < int (length [5, 9, 2, 4 :: int])
   \<and> generate_sequence (\<lambda>row. Inl RuntimeError) (\<lambda>n. 1 / 2) [5, 9, 2, 4] 3 50
       = Some ([[5, 9, 2, 4]], Inl RuntimeError)
   \<and> generate_sequence (\<lambda>row. Inr (replicate (length row) [NInf, NInf])) (\<lambda>n. 1 / 2)
         [5, 9, 2, 4] 3 50
       = Some ([[5, 9, 2, 4]], Inl ValueError)
   \<and> generate_sequence (one_hot_model 51 50) (\<lambda>n. 1 / 2) [5, 9, 2, 4] 3 50
       = Some ([[5, 9, 2, 4]], Inr [5, 9, 2, 4])"
proof -
  let ?ids = "[5, 9, 2, 4 :: int]"
  have h: "(3::int) < int (length ?ids)" by simp
  have a: "generate_sequence (\<lambda>row. Inl RuntimeError) (\<lambda>n. 1 / 2) ?ids 3 50
       = Some ([?ids], Inl RuntimeError)"
    using generate_sequence_long_prompt[OF h,
        where compiled_model = "\<lambda>row. Inl RuntimeError" and e = RuntimeError]
    by simp
  have mx: "Max (set [NInf, NInf]) = NInf" by simp
  have nt: "next_token (replicate (length ?ids) [NInf, NInf]) ?ids 50 (1 / 2) = Inl ValueError"
    by (simp add: next_token_def np_getitem_def py_index_def process_logits_def
        get_top_k_logits_def np_min_def ma_filled_def flt_def softmax_def np_max_def fsub_def
        np_random_choice_def)
  have b: "generate_sequence (\<lambda>row. Inr (replicate (length row) [NInf, NInf])) (\<lambda>n. 1 / 2)
         ?ids 3 50 = Some ([?ids], Inl ValueError)"
    using generate_sequence_long_prompt[OF h,
        where compiled_model = "\<lambda>row. Inr (replicate (length row) [NInf, NInf])"
          and outputs = "replicate (length ?ids) [NInf, NInf]" and eos_token_id = 50
          and rng = "\<lambda>n. 1 / 2" and e = ValueError] nt
    by simp
  have m: "one_hot_model 51 50 ?ids = Inr (replicate (length ?ids) (one_hot 51 50 0))"
    by (simp only: one_hot_model_def)
  have t: "next_token (replicate (length ?ids) (one_hot 51 50 0)) ?ids 50 (1 / 2) = Inr (int 50)"
    by (rule next_token_one_hot) simp_all
  have c: "generate_sequence (one_hot_model 51 50) (\<lambda>n. 1 / 2) ?ids 3 50
       = Some ([?ids], Inr ?ids)"
    using generate_sequence_long_prompt[OF h,
        where compiled_model = "one_hot_model 51 50"
          and outputs = "replicate (length ?ids) (one_hot 51 50 0)" and eos_token_id = 50
          and rng = "\<lambda>n. 1 / 2"] m t
    by simp
  show ?thesis using h a b c by simp
qed

text \<open>
  With a prompt longer than \<open>max_sequence_length\<close> the loop need not end: on a model that
  never lets \<open>eos_token_id\<close> be sampled it runs forever.
\<close>

lemma one_hot_model_never_stops:
  assumes "generate_loop compiled_model rng max_sequence_length eos_token_id input_ids calls = Some y"
  shows "\<not> (compiled_model = one_hot_model 51 7 \<and> rng = (\<lambda>n. 1 / 2) \<and> eos_token_id = 50
            \<and> input_ids \<noteq> [] \<and> max_sequence_length < int (length input_ids))"
proof (rule generate_loop.raw_induct[where P = "\<lambda>compiled_model rng max_sequence_length
      eos_token_id input_ids calls y.
        \<not> (compiled_model = one_hot_model 51 7 \<and> rng = (\<lambda>n. 1 / 2) \<and> eos_token_id = 50
            \<and> input_ids \<noteq> [] \<and> max_sequence_length < int (length input_ids))", OF _ assms],
    goal_cases)
  case (1 loop compiled_model rng max_sequence_length eos_token_id input_ids calls y)
  show ?case
  proof
    assume a: "compiled_model = one_hot_model 51 7 \<and> rng = (\<lambda>n. 1 / 2) \<and> eos_token_id = 50
            \<and> input_ids \<noteq> [] \<and> max_sequence_length < int (length input_ids)"
    then obtain outputs where o:
      "compiled_model (model_input_of input_ids max_sequence_length eos_token_id) = Inr outputs"
      "next_token outputs input_ids eos_token_id (rng (length calls)) = Inr 7"
      using one_hot_model_always_samples[of 7 51 "1 / 2" input_ids max_sequence_length 50]
      by auto
    with 1(2) a have "loop compiled_model rng max_sequence_length eos_token_id (input_ids @ [7])
        (calls @ [model_input_of input_ids max_sequence_length eos_token_id]) = Some y"
      by simp
    from 1(1)[OF this] a show False by simp
  qed
qed

lemma run_forever:
  "generate_sequence (one_hot_model 51 7) (\<lambda>n. 1 / 2) [5, 9, 2] 2 50 = None"
proof (cases "generate_sequence (one_hot_model 51 7) (\<lambda>n. 1 / 2) [5, 9, 2] 2 50")
  case None
  then show ?thesis .
next
  case (Some y)
  then have "generate_loop (one_hot_model 51 7) (\<lambda>n. 1 / 2) 2 50 [5, 9, 2] [] = Some y"
    by (simp add: generate_sequence_def)
  from one_hot_model_never_stops[OF this] show ?thesis by simp
qed

subsection \<open>Top-K with a single survivor\<close>

text \<open>
  Claim C9.  With \<open>top_k = 1\<close> and a score vector whose maximum is a finite score attained
  at one index only, the filter keeps that entry alone, softmax puts probability \<open>1\<close> on it
  and \<open>0\<close> on every other index, and the draw returns that index whatever the uniform
  draw is; so two runs on the same scores return the same token.
\<close>

theorem top_k_one_samples_argmax:
  assumes "i < length scores" and "scores ! i = Fin m"
    and "\<forall>j<length scores. j \<noteq> i \<longrightarrow> flt (scores ! j) (scores ! i)"
    and "0 \<le> u" and "u < 1" and "0 \<le> u'" and "u' < 1"
  shows "\<exists>filtered probs.
           get_top_k_logits scores 1 = Inr filtered
           \<and> filtered = (replicate (length scores) NInf)[i := Fin m]
           \<and> softmax filtered = Inr probs
           \<and> probs = (replicate (length scores) (Fin 0))[i := Fin 1]
           \<and> np_random_choice probs u = Inr (int i)
           \<and> np_random_choice probs u' = np_random_choice probs u"
proof -
  have "get_top_k_logits scores 1 = Inr (one_hot (length scores) i m)"
    using assms(1,2,3) by (intro get_top_k_logits_unique_max) auto
  moreover have "softmax (one_hot (length scores) i m)
      = Inr ((replicate (length scores) (Fin 0))[i := Fin 1])"
    using assms(1) by (rule softmax_one_hot)
  moreover have "np_random_choice ((replicate (length scores) (Fin 0))[i := Fin 1]) u = Inr (int i)"
    using assms(1,4,5) by (rule np_random_choice_one_hot)
  moreover have "np_random_choice ((replicate (length scores) (Fin 0))[i := Fin 1]) u' = Inr (int i)"
    using assms(1,6,7) by (rule np_random_choice_one_hot)
  ultimately show ?thesis by (simp add: one_hot_def)
qed

theorem top_k_one_samples_argmax_witness:
  "get_top_k_logits [Fin 1, Fin 3, NInf, Fin 2] 1 = Inr [NInf, Fin 3, NInf, NInf]
   \<and> softmax [NInf, Fin 3, NInf, NInf] = Inr [Fin 0, Fin 1, Fin 0, Fin 0]
   \<and> np_random_choice [Fin 0, Fin 1, Fin 0, Fin 0] (1 / 4) = Inr 1
   \<and> np_random_choice [Fin 0, Fin 1, Fin 0, Fin 0] (3 / 4) = Inr 1"
proof -
  let ?scores = "[Fin 1, Fin 3, NInf, Fin 2]"
  have h1: "1 < length ?scores" by simp
  have h2: "?scores ! 1 = Fin 3" by simp
  have h3: "\<forall>j<length ?scores. j \<noteq> 1 \<longrightarrow> flt (?scores ! j) (?scores ! 1)"
    by (auto simp: flt_def nth_Cons' less_Suc_eq)
  have u1: "(0::real) \<le> 1 / 4" "(1::real) / 4 < 1" by simp_all
  have u2: "(0::real) \<le> 3 / 4" "(3::real) / 4 < 1" by simp_all
  have up: "(replicate (length ?scores) x)[1 := y] = [x, y, x, x]" for x y :: fval
    by (simp add: eval_nat_numeral)
  from top_k_one_samples_argmax[OF h1 h2 h3 u1 u2]
  show ?thesis unfolding up by auto
qed

subsection \<open>Softmax\<close>

lemma sum_list_divide_const:
  fixes s :: real
  shows "sum_list (map (\<lambda>e. e / s) es) = sum_list es / s"
  by (induction es) (simp_all add: add_divide_distrib)

lemma one_le_sum_list:
  fixes es :: "real list"
  assumes "\<And>e. e \<in> set es \<Longrightarrow> 0 \<le> e" and "1 \<in> set es"
  shows "1 \<le> sum_list es"
proof -
  from assms(2) obtain ys zs where es: "es = ys @ 1 # zs" by (auto dest: split_list)
  have "0 \<le> sum_list ys" "0 \<le> sum_list zs"
    using assms(1) by (auto simp: es intro!: sum_list_nonneg)
  then show ?thesis by (simp add: es)
qed

text \<open>
  Finite scores are exact reals here, so the rounding, overflow and underflow of \<open>exp\<close>,
  of the sum and of the division are outside this development, and with them every
  statement about a tolerance of the softmax output.  The next lemma is about the exact
  values; it is used to show that the checks of \<open>np.random.choice\<close> pass.
\<close>

lemma softmax_finite_or_ninf:
  assumes fin_or_ninf: "\<forall>v\<in>set x. v = NInf \<or> (\<exists>a. v = Fin a)"
    and some_fin: "\<exists>a. Fin a \<in> set x"
  obtains ps where "softmax x = Inr (map Fin ps)" and "length ps = length x"
    and "\<forall>p\<in>set ps. 0 \<le> p" and "sum_list ps = 1"
    and "\<forall>i<length x. x ! i = NInf \<longrightarrow> ps ! i = 0"
proof -
  from some_fin obtain a where a: "Fin a \<in> set x" by blast
  then have ne: "x \<noteq> []" by auto
  have nn: "NaN \<notin> set x" using fin_or_ninf by auto
  have "Max (set x) \<in> set x" using ne by (intro Max_in) auto
  moreover have "Fin a \<le> Max (set x)" using a by (intro Max_ge) auto
  ultimately obtain m where m: "Max (set x) = Fin m" "Fin m \<in> set x"
    using fin_or_ninf by (metis NInf_less(3))
  have mx: "np_max x = Inr (Fin m)" using ne nn m(1) by (simp add: np_max_def)
  define g where "g v = (case v of Fin b \<Rightarrow> exp (b - m) | _ \<Rightarrow> 0)" for v
  define es where "es = map g x"
  define s where "s = sum_list es"
  have gx: "fexp (fsub v (Fin m)) = Fin (g v)" if "v \<in> set x" for v
    using fin_or_ninf that by (auto simp: g_def fsub_def)
  have e_x: "map (\<lambda>v. fexp (fsub v (Fin m))) x = map Fin es"
    unfolding es_def using gx by simp
  have nonneg: "0 \<le> e" if "e \<in> set es" for e
    using that by (auto simp: es_def g_def split: fval.splits)
  have "g (Fin m) = 1" by (simp add: g_def)
  then have "1 \<in> set es" unfolding es_def using m(2) by (metis image_eqI set_map)
  with nonneg have s1: "1 \<le> s" unfolding s_def by (intro one_le_sum_list)
  have sm: "fsum (map Fin es) = Fin s" by (simp add: fsum_Fin s_def)
  have dv: "map (\<lambda>e. fdiv e (Fin s)) (map Fin es) = map Fin (map (\<lambda>e. e / s) es)"
    using s1 by simp
  define ps where "ps = map (\<lambda>e. e / s) es"
  have "softmax x = (let e_x = map (\<lambda>v. fexp (fsub v (Fin m))) x; summation = fsum e_x
                     in Inr (map (\<lambda>e. fdiv e summation) e_x))"
    using mx by (simp add: softmax_def)
  also have "\<dots> = Inr (map (\<lambda>e. fdiv e (Fin s)) (map Fin es))"
    unfolding e_x Let_def sm ..
  also have "\<dots> = Inr (map Fin ps)"
    unfolding dv ps_def ..
  finally have res: "softmax x = Inr (map Fin ps)" .
  have len: "length ps = length x" by (simp add: ps_def es_def)
  have pos: "\<forall>p\<in>set ps. 0 \<le> p" using nonneg s1 by (auto simp: ps_def)
  have total: "sum_list ps = 1"
    using s1 by (simp add: ps_def sum_list_divide_const s_def[symmetric])
  have zero: "\<forall>i<length x. x ! i = NInf \<longrightarrow> ps ! i = 0"
    by (simp add: ps_def es_def g_def)
  show ?thesis using res len pos total zero by (rule that)
qed

text \<open>
  On a non-empty vector whose entries are all negative infinity the maximum is negative
  infinity, every difference \<open>-inf - (-inf)\<close> is \<open>nan\<close>, and so is every entry of the
  result.  Only special values take part, so no rounding is involved.
\<close>

lemma softmax_all_neg_inf:
  assumes "x \<noteq> []" and "\<forall>v\<in>set x. v = NInf"
  shows "softmax x = Inr (map (\<lambda>v. NaN) x)"
proof -
  have sx: "set x = {NInf}" using assms by (cases x) auto
  have mx: "np_max x = Inr NInf" using assms(1) by (simp add: np_max_def sx)
  have e_x: "map (\<lambda>v. fexp (fsub v NInf)) x = map (\<lambda>v. NaN) x"
    using assms(2) by (intro map_cong) (auto simp: fsub_def)
  have sm: "fsum (map (\<lambda>v. NaN) x) = NaN" using assms(1) by (cases x) simp_all
  have "softmax x = (let e_x = map (\<lambda>v. fexp (fsub v NInf)) x; summation = fsum e_x
                     in Inr (map (\<lambda>e. fdiv e summation) e_x))"
    using mx by (simp add: softmax_def)
  also have "\<dots> = Inr (map (\<lambda>e. fdiv e NaN) (map (\<lambda>v. NaN) x))"
    unfolding e_x Let_def sm ..
  also have "\<dots> = Inr (map (\<lambda>v. NaN) x)" by simp
  finally show ?thesis .
qed

subsection \<open>What the filters do to the array they are given\<close>

text \<open>
  Claim C5 says that the filters never change the caller's score vector.  With three input
  tokens and \<open>min_length = 4\<close>, \<open>process_logits\<close> assigns negative infinity to entry
  \<open>eos_token_id = 1\<close> of the array it was given, at address \<open>0\<close>, and returns that same
  array: after the call the caller's vector holds \<open>[1, -inf, 2]\<close>, not \<open>[1, 3, 2]\<close>.
\<close>

theorem process_logits_mutates_counterexample:
  "process_logits_heap [[Fin 1, Fin 3, Fin 2]] [5, 9, 2] 0 1 4
     = Inr ([[Fin 1, NInf, Fin 2]], 0)"
  by (simp add: process_logits_heap_def np_setitem_def py_index_def)

lemma get_top_k_logits_heap_frame:
  assumes run: "get_top_k_logits_heap h scores top_k = Inr (h', r)" and sc: "scores < length h"
  shows "\<forall>a<length h. h' ! a = h ! a" and "r < length h'"
    and "get_top_k_logits (h ! scores) top_k = Inr (h' ! r)"
proof -
  let ?k = "nat (min (max top_k 1) (int (length (h ! scores))))"
  let ?top = "take ?k (map fneg (sort (map fneg (h ! scores))))"
  obtain thr where thr: "np_min ?top = Inr thr"
    using run by (cases "np_min ?top") (simp_all add: get_top_k_logits_heap_def)
  let ?msk = "map (\<lambda>s. flt s thr) (h ! scores)"
  let ?new = "ma_filled (h ! scores) ?msk NInf"
  have pure: "get_top_k_logits (h ! scores) top_k = Inr ?new"
    using thr by (simp add: get_top_k_logits_def)
  have heap: "get_top_k_logits_heap h scores top_k
      = (if list_ex (\<lambda>m. m) ?msk then Inr (h @ [?new], length h) else Inr (h, scores))"
    using thr by (simp add: get_top_k_logits_heap_def)
  have "(\<forall>a<length h. h' ! a = h ! a) \<and> r < length h'
      \<and> get_top_k_logits (h ! scores) top_k = Inr (h' ! r)"
  proof (cases "list_ex (\<lambda>m. m) ?msk")
    case True
    with run heap have "h' = h @ [?new]" "r = length h" by simp_all
    then show ?thesis using pure by (simp add: nth_append)
  next
    case False
    with run heap have same: "h' = h" "r = scores" by simp_all
    from False have "?new = h ! scores"
      by (simp add: ma_filled_map list_ex_iff map_idI)
    then show ?thesis using pure sc by (simp add: same)
  qed
  then show "\<forall>a<length h. h' ! a = h ! a" and "r < length h'"
    and "get_top_k_logits (h ! scores) top_k = Inr (h' ! r)" by simp_all
qed

lemma process_logits_heap_write:
  assumes run: "process_logits_heap h input_ids scores eos_token_id min_length = Inr (h', r)"
    and lt: "int (length input_ids) < min_length"
  shows "r = scores" and "length h' = length h"
    and "\<forall>a<length h. a \<noteq> scores \<longrightarrow> h' ! a = h ! a"
    and "scores < length h \<Longrightarrow>
         process_logits input_ids (h ! scores) eos_token_id min_length = Inr (h' ! scores)"
proof -
  obtain row where row: "np_setitem (h ! scores) eos_token_id NInf = Inr row"
    using run lt by (cases "np_setitem (h ! scores) eos_token_id NInf")
      (simp_all add: process_logits_heap_def)
  with run lt have "h[scores := row] = h' \<and> scores = r"
    by (auto simp: process_logits_heap_def)
  then have eq: "h' = h[scores := row]" "r = scores" by blast+
  show "r = scores" by (rule eq(2))
  show "length h' = length h" by (simp add: eq(1))
  show "\<forall>a<length h. a \<noteq> scores \<longrightarrow> h' ! a = h ! a" by (simp add: eq(1))
  show "process_logits input_ids (h ! scores) eos_token_id min_length = Inr (h' ! scores)"
    if "scores < length h"
    using that lt row by (simp add: process_logits_def eq(1))
qed

text \<open>
  Claim C5, amended.  \<open>get_top_k_logits\<close> never changes an array that exists when it is
  called, the one it is given included, and its result is the filtered vector.
  \<open>process_logits\<close> leaves every array as it is and returns the array it was given when
  the current length is not below \<open>min_length\<close>, so always with the default
  \<open>min_length = 0\<close>.  When the current length is below \<open>min_length\<close>, it overwrites the
  array it was given in place (and no other array) and returns that same array.
\<close>

theorem filters_leave_caller_vector:
  "(scores < length h \<and> get_top_k_logits_heap h scores top_k = Inr (h', r)
      \<longrightarrow> (\<forall>a<length h. h' ! a = h ! a) \<and> r < length h'
          \<and> get_top_k_logits (h ! scores) top_k = Inr (h' ! r))
   \<and> (\<not> int (length input_ids) < min_length
      \<longrightarrow> process_logits_heap h input_ids scores eos_token_id min_length = Inr (h, scores))
   \<and> process_logits_heap h input_ids scores eos_token_id 0 = Inr (h, scores)
   \<and> (scores < length h \<and> int (length input_ids) < min_length
       \<and> process_logits_heap h input_ids scores eos_token_id min_length = Inr (h', r)
      \<longrightarrow> r = scores \<and> length h' = length h
          \<and> (\<forall>a<length h. a \<noteq> scores \<longrightarrow> h' ! a = h ! a)
          \<and> process_logits input_ids (h ! scores) eos_token_id min_length = Inr (h' ! scores))"
proof (intro conjI impI)
  assume a: "scores < length h \<and> get_top_k_logits_heap h scores top_k = Inr (h', r)"
  then have run: "get_top_k_logits_heap h scores top_k = Inr (h', r)" and sc: "scores < length h"
    by simp_all
  show "\<forall>a<length h. h' ! a = h ! a" by (rule get_top_k_logits_heap_frame(1)[OF run sc])
  show "r < length h'" by (rule get_top_k_logits_heap_frame(2)[OF run sc])
  show "get_top_k_logits (h ! scores) top_k = Inr (h' ! r)"
    by (rule get_top_k_logits_heap_frame(3)[OF run sc])
next
  assume "\<not> int (length input_ids) < min_length"
  then show "process_logits_heap h input_ids scores eos_token_id min_length = Inr (h, scores)"
    by (simp add: process_logits_heap_def)
next
  show "process_logits_heap h input_ids scores eos_token_id 0 = Inr (h, scores)"
    by (simp add: process_logits_heap_def)
next
  assume a: "scores < length h \<and> int (length input_ids) < min_length
       \<and> process_logits_heap h input_ids scores eos_token_id min_length = Inr (h', r)"
  then have run: "process_logits_heap h input_ids scores eos_token_id min_length = Inr (h', r)"
    and lt: "int (length input_ids) < min_length" and sc: "scores < length h"
    by simp_all
  show "r = scores" by (rule process_logits_heap_write(1)[OF run lt])
  show "length h' = length h" by (rule process_logits_heap_write(2)[OF run lt])
  show "\<forall>a<length h. a \<noteq> scores \<longrightarrow> h' ! a = h ! a"
    by (rule process_logits_heap_write(3)[OF run lt])
  show "process_logits input_ids (h ! scores) eos_token_id min_length = Inr (h' ! scores)"
    by (rule process_logits_heap_write(4)[OF run lt sc])
qed

theorem filters_leave_caller_vector_witness:
  "get_top_k_logits_heap [[Fin 1, Fin 3, Fin 2]] 0 1
     = Inr ([[Fin 1, Fin 3, Fin 2], [NInf, Fin 3, NInf]], 1)
   \<and> get_top_k_logits [Fin 1, Fin 3, Fin 2] 1 = Inr [NInf, Fin 3, NInf]
   \<and> process_logits_heap [[Fin 1, Fin 3, Fin 2]] [5, 9, 2] 0 1 3
     = Inr ([[Fin 1, Fin 3, Fin 2]], 0)
   \<and> process_logits_heap [[Fin 1, Fin 3, Fin 2]] [5, 9, 2] 0 1 0
     = Inr ([[Fin 1, Fin 3, Fin 2]], 0)
   \<and> process_logits [5, 9, 2] [Fin 1, Fin 3, Fin 2] 1 4 = Inr [Fin 1, NInf, Fin 2]"
proof -
  let ?h = "[[Fin 1, Fin 3, Fin 2]]"
  have topk: "get_top_k_logits_heap ?h 0 1
     = Inr ([[Fin 1, Fin 3, Fin 2], [NInf, Fin 3, NInf]], 1)"
    by (simp add: get_top_k_logits_heap_def ma_filled_def np_min_def flt_def)
  have proc: "process_logits_heap ?h [5, 9, 2] 0 1 4 = Inr ([[Fin 1, NInf, Fin 2]], 0)"
    by (simp add: process_logits_heap_def np_setitem_def py_index_def)
  note inst = filters_leave_caller_vector
    [of 0 ?h 1 "[[Fin 1, Fin 3, Fin 2], [NInf, Fin 3, NInf]]" 1 "[5, 9, 2]" 3 1]
    filters_leave_caller_vector
    [of 0 ?h 1 "[[Fin 1, NInf, Fin 2]]" 0 "[5, 9, 2]" 4 1]
  show ?thesis using inst topk proc by simp
qed

subsection \<open>Models with finite logits\<close>

lemma np_random_choice_distribution:
  assumes "ps \<noteq> []" and "\<forall>p\<in>set ps. 0 \<le> p" and "sum_list ps = 1"
  shows "\<exists>t. np_random_choice (map Fin ps) u = Inr t"
proof -
  have sm: "fsum (map Fin ps) = Fin 1" using assms(3) by (simp add: fsum_Fin)
  have nonneg: "\<not> list_ex (\<lambda>x. flt x (Fin 0)) (map Fin ps)"
    using assms(2) by (auto simp: list_ex_iff flt_def)
  show ?thesis
    using assms(1) sm nonneg by (simp add: np_random_choice_def choice_atol_def Let_def)
qed

lemma get_top_k_logits_finite:
  assumes ne: "scores \<noteq> []" and fin: "\<forall>v\<in>set scores. \<exists>a. v = Fin a"
  obtains filtered where "get_top_k_logits scores top_k = Inr filtered"
    and "\<forall>v\<in>set filtered. v = NInf \<or> (\<exists>a. v = Fin a)"
    and "\<exists>a. Fin a \<in> set filtered"
proof -
  have nn: "NaN \<notin> set scores" using fin by auto
  obtain thr where thr: "thr \<in> set scores"
    "np_min (take (nat (min (max top_k 1) (int (length scores)))) (map fneg (sort (map fneg scores)))) = Inr thr"
    by (rule top_k_threshold[OF ne nn refl])
  let ?f = "\<lambda>s. if flt s thr then NInf else s"
  have res: "get_top_k_logits scores top_k = Inr (map ?f scores)"
    using thr(2) by (rule get_top_k_logits_via_threshold)
  have shape: "\<forall>v\<in>set (map ?f scores). v = NInf \<or> (\<exists>a. v = Fin a)"
    using fin by auto
  from thr(1) fin obtain a where a: "thr = Fin a" by blast
  have keep: "?f thr = thr" by (simp add: flt_def)
  have "?f thr \<in> ?f ` set scores" using thr(1) by (rule imageI)
  then have "thr \<in> set (map ?f scores)" by (simp only: keep set_map)
  then have "Fin a \<in> set (map ?f scores)" by (simp only: a)
  then have "\<exists>a. Fin a \<in> set (map ?f scores)" by (rule exI)
  with res shape show ?thesis by (rule that)
qed

lemma next_token_well_formed:
  assumes ids: "input_ids \<noteq> []" "length input_ids \<le> length outputs"
    and rows: "\<forall>row\<in>set outputs. row \<noteq> [] \<and> (\<forall>v\<in>set row. \<exists>a. v = Fin a)"
  shows "\<exists>t. next_token outputs input_ids eos_token_id u = Inr t"
proof -
  let ?i = "length input_ids - 1"
  have pos: "0 < length input_ids" using ids(1) by simp
  then have i: "?i < length outputs" using ids(2) by linarith
  have "py_index (length outputs) (int (length input_ids) - 1) = Inr ?i"
    using pos ids(2) by (simp add: py_index_def Let_def nat_diff_distrib)
  then have g: "np_getitem outputs (int (length input_ids) - 1) = Inr (outputs ! ?i)"
    by (simp add: np_getitem_def)
  have "outputs ! ?i \<in> set outputs" using i by (rule nth_mem)
  with rows have row: "outputs ! ?i \<noteq> []" "\<forall>v\<in>set (outputs ! ?i). \<exists>a. v = Fin a"
    by blast+
  have p: "process_logits input_ids (outputs ! ?i) eos_token_id 0 = Inr (outputs ! ?i)"
    by (simp add: process_logits_def)
  obtain filtered where f: "get_top_k_logits (outputs ! ?i) 20 = Inr filtered"
    "\<forall>v\<in>set filtered. v = NInf \<or> (\<exists>a. v = Fin a)" "\<exists>a. Fin a \<in> set filtered"
    by (rule get_top_k_logits_finite[OF row])
  obtain ps where ps: "softmax filtered = Inr (map Fin ps)" "length ps = length filtered"
    "\<forall>p\<in>set ps. 0 \<le> p" "sum_list ps = 1"
    "\<forall>i<length filtered. filtered ! i = NInf \<longrightarrow> ps ! i = 0"
    by (rule softmax_finite_or_ninf[OF f(2,3)])
  from f(3) ps(2) have "ps \<noteq> []" by auto
  from np_random_choice_distribution[OF this ps(3,4), of u]
  obtain t where "np_random_choice (map Fin ps) u = Inr t" by blast
  then show ?thesis using g p f(1) ps(1) by (simp add: next_token_def)
qed

lemma generate_loop_no_exception:
  assumes "generate_loop compiled_model rng max_sequence_length eos_token_id input_ids calls = Some y"
  shows "(\<forall>inp. \<exists>outputs. compiled_model inp = Inr outputs \<and> length outputs = length inp
              \<and> (\<forall>row\<in>set outputs. row \<noteq> [] \<and> (\<forall>v\<in>set row. \<exists>a. v = Fin a)))
         \<and> input_ids \<noteq> []
       \<longrightarrow> (\<exists>out. snd y = Inr out)"
proof (rule generate_loop.raw_induct[where P = "\<lambda>compiled_model rng max_sequence_length
      eos_token_id input_ids calls y.
        (\<forall>inp. \<exists>outputs. compiled_model inp = Inr outputs \<and> length outputs = length inp
              \<and> (\<forall>row\<in>set outputs. row \<noteq> [] \<and> (\<forall>v\<in>set row. \<exists>a. v = Fin a)))
         \<and> input_ids \<noteq> []
       \<longrightarrow> (\<exists>out. snd y = Inr out)", OF _ assms],
    goal_cases)
  case (1 loop compiled_model rng max_sequence_length eos_token_id input_ids calls y)
  let ?inp = "model_input_of input_ids max_sequence_length eos_token_id"
  show ?case
  proof
    assume a: "(\<forall>inp. \<exists>outputs. compiled_model inp = Inr outputs \<and> length outputs = length inp
              \<and> (\<forall>row\<in>set outputs. row \<noteq> [] \<and> (\<forall>v\<in>set row. \<exists>a. v = Fin a)))
         \<and> input_ids \<noteq> []"
    then obtain outputs where o: "compiled_model ?inp = Inr outputs"
      "length outputs = length ?inp"
      "\<forall>row\<in>set outputs. row \<noteq> [] \<and> (\<forall>v\<in>set row. \<exists>a. v = Fin a)"
      by blast
    have "length input_ids \<le> length outputs"
      using o(2) length_model_input_of[of input_ids max_sequence_length eos_token_id] by simp
    from next_token_well_formed[OF _ this o(3), of eos_token_id "rng (length calls)"] a
    obtain t where t: "next_token outputs input_ids eos_token_id (rng (length calls)) = Inr t"
      by blast
    show "\<exists>out. snd y = Inr out"
    proof (cases "int (length input_ids) = max_sequence_length \<or> t = eos_token_id")
      case True
      with o(1) t 1(2) show ?thesis by auto
    next
      case False
      with o(1) t 1(2) have "loop compiled_model rng max_sequence_length eos_token_id
          (input_ids @ [t]) (calls @ [?inp]) = Some y" by simp
      from 1(1)[OF this] a show ?thesis by simp
    qed
  qed
qed

text \<open>
  When the model returns, for every input row, one non-empty vector of finite scores per
  position, no step of the loop raises an exception: for every prompt with
  \<open>1 \<le> length prompt_tokens \<le> max_sequence_length\<close> and every sequence of draws,
  \<open>generate_sequence\<close> returns a token sequence; it starts with the prompt and its length
  lies between the prompt's and \<open>max_sequence_length\<close>.
\<close>

theorem generate_sequence_returns_on_finite_logits:
  assumes model: "\<forall>inp. \<exists>outputs. compiled_model inp = Inr outputs \<and> length outputs = length inp
              \<and> (\<forall>row\<in>set outputs. row \<noteq> [] \<and> (\<forall>v\<in>set row. \<exists>a. v = Fin a))"
    and "1 \<le> length prompt_tokens"
    and "int (length prompt_tokens) \<le> max_sequence_length"
  shows "\<exists>calls out.
           generate_sequence compiled_model rng prompt_tokens max_sequence_length eos_token_id
             = Some (calls, Inr out)
           \<and> length prompt_tokens \<le> length out \<and> int (length out) \<le> max_sequence_length
           \<and> take (length prompt_tokens) out = prompt_tokens"
proof -
  from generate_loop_terminates[OF assms(3), of compiled_model rng eos_token_id "[]"]
  obtain calls res where
    run: "generate_loop compiled_model rng max_sequence_length eos_token_id prompt_tokens []
            = Some (calls, res)"
    and out: "\<forall>out. res = Inr out \<longrightarrow>
                length prompt_tokens \<le> length out \<and> int (length out) \<le> max_sequence_length
                \<and> take (length prompt_tokens) out = prompt_tokens"
    by blast
  have "prompt_tokens \<noteq> []" using assms(2) by auto
  with generate_loop_no_exception[OF run] model obtain out where "res = Inr out" by auto
  with run out show ?thesis by (auto simp: generate_sequence_def)
qed

theorem generate_sequence_returns_on_finite_logits_witness:
  "\<exists>calls out.
     generate_sequence (\<lambda>inp. Inr (replicate (length inp) [Fin 0, Fin 1])) (\<lambda>n. 1 / 2)
       [5, 9, 2] 5 50 = Some (calls, Inr out)
     \<and> length [5, 9, 2 :: int] \<le> length out \<and> int (length out) \<le> 5
     \<and> take (length [5, 9, 2 :: int]) out = [5, 9, 2]"
proof -
  have model: "\<forall>inp. \<exists>outputs.
      (\<lambda>inp. Inr (replicate (length inp) [Fin 0, Fin 1]) :: error + fval list list) inp = Inr outputs
      \<and> length outputs = length (inp :: int list)
      \<and> (\<forall>row\<in>set outputs. row \<noteq> [] \<and> (\<forall>v\<in>set row. \<exists>a. v = Fin a))"
    by auto
  have h1: "1 \<le> length [5, 9, 2 :: int]" by simp
  have h2: "int (length [5, 9, 2 :: int]) \<le> 5" by simp
  show ?thesis
    by (rule generate_sequence_returns_on_finite_logits[OF model h1 h2])
qed

end
